theory Spec2Isabelle
  imports Complex_Main "HOL-Library.Word"
begin

unbundle bit_operations_syntax

section \<open>Arrays and errors\<close>

text \<open>
  The frames of \<^verbatim>\<open>Yolov9_DeepSort_MOT16.py\<close> are numpy arrays of dtype uint8. An array
  is its shape and its elements in row-major order, as numpy stores a contiguous array.
  Python integers are unbounded: the stride is an \<open>int\<close>.
\<close>

type_synonym u8 = "8 word"

record ndarray =
  shape :: "nat list"
  buf :: "u8 list"

definition wf_ndarray :: "ndarray \<Rightarrow> bool" where
  "wf_ndarray a = (length (buf a) = prod_list (shape a))"

text \<open>
  The exceptions the modelled code can raise. \<open>ExternalError\<close> is an exception raised
  inside a callable of another package (the detector), with its message.
\<close>

datatype py_error =
  ValueError | ZeroDivisionError | KeyError | IndexError | ExternalError string

text \<open>Element \<open>[i, j, k]\<close> of a three-dimensional array.\<close>

definition at3 :: "ndarray \<Rightarrow> nat \<Rightarrow> nat \<Rightarrow> nat \<Rightarrow> u8" where
  "at3 a i j k = buf a ! ((i * (shape a ! 1) + j) * (shape a ! 2) + k)"

text \<open>The row-major buffer of an \<open>H \<times> W \<times> C\<close> array whose element \<open>[i, j, k]\<close> is \<open>f i j k\<close>.\<close>

definition tabulate3 :: "nat \<Rightarrow> nat \<Rightarrow> nat \<Rightarrow> (nat \<Rightarrow> nat \<Rightarrow> nat \<Rightarrow> 'a) \<Rightarrow> 'a list" where
  "tabulate3 H W C f =
     concat (map (\<lambda>i. concat (map (\<lambda>j. map (f i j) [0..<C]) [0..<W])) [0..<H])"

section \<open>The frame preprocessor\<close>

text \<open>
  \<^verbatim>\<open>
  def resize_and_pad(image, stride=32):
      h, w = image.shape[:2]
      new_h = (h + stride - 1) // stride * stride
      new_w = (w + stride - 1) // stride * stride
      padded_image = np.zeros((new_h, new_w, 3), dtype=np.uint8)
      padded_image[:h, :w, :] = image
      return padded_image
  \<close>
  \<^item> \<open>h, w = image.shape[:2]\<close> raises ValueError when the array has fewer than two
    dimensions (not enough values to unpack).
  \<^item> \<open>//\<close> is floor division, as \<open>div\<close> on \<open>int\<close>; a zero stride raises
    ZeroDivisionError.
  \<^item> \<open>np.zeros\<close> raises ValueError on a negative dimension.
  \<^item> The slice \<open>padded_image[:h, :w, :]\<close> has shape
    \<open>(min h new_h, min w new_w, 3)\<close>; the assignment broadcasts \<open>image\<close> to it and
    raises ValueError when the shapes do not broadcast.
\<close>

text \<open>
  numpy's rule for the value of an assignment: leading dimensions of size 1 are dropped
  while the value has more dimensions than the target, the shape is then filled with 1 on
  the left, and every dimension must equal the target's or be 1.
\<close>

fun strip_ones :: "nat \<Rightarrow> nat list \<Rightarrow> nat list" where
  "strip_ones n [] = []"
| "strip_ones n (d # ds) = (if n < length (d # ds) \<and> d = 1 then strip_ones n ds else d # ds)"

definition broadcast3 :: "nat list \<Rightarrow> nat \<times> nat \<times> nat \<Rightarrow> (nat \<times> nat \<times> nat) option" where
  "broadcast3 src dst =
     (let s = strip_ones 3 src in
      if 3 < length s then None
      else (case replicate (3 - length s) 1 @ s of
              [a, b, c] \<Rightarrow>
                (case dst of (da, db, dc) \<Rightarrow>
                   if (a = da \<or> a = 1) \<and> (b = db \<or> b = 1) \<and> (c = dc \<or> c = 1)
                   then Some (a, b, c) else None)
            | _ \<Rightarrow> None))"

text \<open>
  Element \<open>[i, j, k]\<close> of the broadcast of a value whose filled shape is \<open>(a, b, c)\<close>:
  an index along a dimension of size 1 is 0.
\<close>

definition bcast_at :: "u8 list \<Rightarrow> nat \<times> nat \<times> nat \<Rightarrow> nat \<Rightarrow> nat \<Rightarrow> nat \<Rightarrow> u8" where
  "bcast_at xs s i j k =
     (case s of (a, b, c) \<Rightarrow>
        xs ! (((if a = 1 then 0 else i) * b + (if b = 1 then 0 else j)) * c
              + (if c = 1 then 0 else k)))"

definition resize_and_pad :: "ndarray \<Rightarrow> int \<Rightarrow> py_error + ndarray" where
  "resize_and_pad im stride =
     (case shape im of
        h # w # rest \<Rightarrow>
          if stride = 0 then Inl ZeroDivisionError
          else
            let new_h = (int h + stride - 1) div stride * stride;
                new_w = (int w + stride - 1) div stride * stride
            in if new_h < 0 \<or> new_w < 0 then Inl ValueError
               else
                 let H = nat new_h; W = nat new_w; h' = min h H; w' = min w W
                 in (case broadcast3 (shape im) (h', w', 3) of
                       None \<Rightarrow> Inl ValueError
                     | Some s \<Rightarrow>
                         Inr \<lparr>shape = [H, W, 3],
                              buf = tabulate3 H W 3
                                (\<lambda>i j k. if i < h' \<and> j < w' then bcast_at (buf im) s i j k
                                          else 0)\<rparr>)
      | _ \<Rightarrow> Inl ValueError)"

section \<open>Detections handed to the tracker\<close>

text \<open>
  A row of the detector's output after the post-filter: the corners of the box, the
  confidence and the class index, all tensor elements. A finite floating-point value is a
  rational number, so the elements are \<open>rat\<close>; \<open>int(x)\<close> truncates towards zero.
\<close>

record det_row =
  bx1 :: rat
  by1 :: rat
  bx2 :: rat
  by2 :: rat
  conf :: rat
  cls :: rat

definition py_int :: "rat \<Rightarrow> int" where
  "py_int q = (if 0 \<le> q then \<lfloor>q\<rfloor> else \<lceil>q\<rceil>)"

text \<open>\<open>tensor.round()\<close> rounds to the nearest integer, a tie to the even one.\<close>

definition torch_round :: "rat \<Rightarrow> rat" where
  "torch_round q =
     (let f = \<lfloor>q\<rfloor>; d = q - of_int f
      in if d < 1 / 2 then of_int f
         else if 1 / 2 < d then of_int (f + 1)
         else if even f then of_int f else of_int (f + 1))"

text \<open>
  \<open>names\<close> is the model's dictionary from class index to class name, in the order of its
  items. A detection is the tuple \<open>([x, y, w, h], confidence, class name)\<close>.
\<close>

type_synonym names = "(int \<times> string) list"
type_synonym detection = "int list \<times> rat \<times> string"

text \<open>
  \<^verbatim>\<open>
  for *xyxy, conf, cls in reversed(det):
      x1, y1, x2, y2 = map(int, xyxy)
      cls_name = names[int(cls)]  # Class name from dictionary
      detections.append(([x1, y1, x2 - x1, y2 - y1], conf.item(), cls_name))
  \<close>
  \<open>to_detection\<close> is the body of the loop and \<open>detections_of\<close> the loop over the rows
  it is given (the caller hands it \<open>reversed(det)\<close>); a class index that is not a key of
  \<open>names\<close> raises KeyError.
\<close>

definition to_detection :: "names \<Rightarrow> det_row \<Rightarrow> py_error + detection" where
  "to_detection names r =
     (let x1 = py_int (bx1 r); y1 = py_int (by1 r); x2 = py_int (bx2 r); y2 = py_int (by2 r)
      in case map_of names (py_int (cls r)) of
           None \<Rightarrow> Inl KeyError
         | Some cls_name \<Rightarrow> Inr ([x1, y1, x2 - x1, y2 - y1], conf r, cls_name))"

fun detections_of :: "names \<Rightarrow> det_row list \<Rightarrow> py_error + detection list" where
  "detections_of names [] = Inr []"
| "detections_of names (r # rs) =
     (case to_detection names r of
        Inl e \<Rightarrow> Inl e
      | Inr d \<Rightarrow> (case detections_of names rs of
                    Inl e \<Rightarrow> Inl e
                  | Inr ds \<Rightarrow> Inr (d # ds)))"

section \<open>Tracks and their annotation\<close>

text \<open>
  What \<open>inference\<close> reads of a track of the tracker package: \<open>track_id\<close>, \<open>det_class\<close>,
  \<open>time_since_update\<close>, \<open>to_ltrb()\<close> and \<open>is_confirmed()\<close>, which in that package
  is the test that the track's state is Confirmed.
\<close>

datatype track_state = Tentative | Confirmed | Deleted

record track =
  track_id :: string
  det_class :: string
  state :: track_state
  time_since_update :: int
  ltrb :: "rat list"

definition is_confirmed :: "track \<Rightarrow> bool" where
  "is_confirmed t = (state t = Confirmed)"

definition to_ltrb :: "track \<Rightarrow> rat list" where
  "to_ltrb t = ltrb t"

type_synonym color = "int \<times> int \<times> int"

text \<open>One call \<open>annotator.box_label(bbox, label, color=cls_color)\<close>.\<close>

record box_label_call =
  call_bbox :: "rat list"
  call_label :: string
  call_color :: color

text \<open>\<open>next((k for k, v in names.items() if v == track_cls), 0)\<close>\<close>

definition cls_index_of :: "names \<Rightarrow> string \<Rightarrow> int" where
  "cls_index_of names track_cls =
     (case find (\<lambda>(k, v). v = track_cls) names of None \<Rightarrow> 0 | Some (k, v) \<Rightarrow> k)"

text \<open>
  \<^verbatim>\<open>
  for track in tracks:
      if not track.is_confirmed() or track.time_since_update > 0:
          continue
      track_id = track.track_id
      track_cls = track.det_class
      cls_index = next((k for k, v in names.items() if v == track_cls), 0)
      bbox = track.to_ltrb()  # left, top, right, bottom
      cls_color = colors(cls_index, True)
      label = f'ID: {track_id} | {track_cls}'
      annotator.box_label(bbox, label, color=cls_color)
  \<close>
  \<open>box_label_of\<close> is the call made for a track that passes the test,
  \<open>annotate_tracks\<close> the sequence of \<open>box_label\<close> calls the loop makes; \<open>colors\<close>
  is the palette of the plotting package.
\<close>

definition box_label_of :: "(int \<Rightarrow> color) \<Rightarrow> names \<Rightarrow> track \<Rightarrow> box_label_call" where
  "box_label_of colors names t =
     (let track_cls = det_class t;
          cls_index = cls_index_of names track_cls;
          bbox = to_ltrb t;
          cls_color = colors cls_index;
          label = ''ID: '' @ track_id t @ '' | '' @ track_cls
      in \<lparr>call_bbox = bbox, call_label = label, call_color = cls_color\<rparr>)"

fun annotate_tracks :: "(int \<Rightarrow> color) \<Rightarrow> names \<Rightarrow> track list \<Rightarrow> box_label_call list" where
  "annotate_tracks colors names [] = []"
| "annotate_tracks colors names (t # ts) =
     (if \<not> is_confirmed t \<or> time_since_update t > 0 then annotate_tracks colors names ts
      else box_label_of colors names t # annotate_tracks colors names ts)"

section \<open>The frame step\<close>

text \<open>
  Arrays are objects: \<open>inference\<close> receives a reference to the caller's frame and draws
  on a copy. The store is the list of the arrays allocated so far, a reference is an
  index into it, and a fresh array gets the next index. The tracker object \<open>deepsort\<close>
  is the other part of the state.
\<close>

type_synonym ref = nat

record 'trk world =
  heap :: "ndarray list"
  deepsort :: 'trk

definition alloc :: "ndarray \<Rightarrow> 'trk world \<Rightarrow> ref \<times> 'trk world" where
  "alloc a w = (length (heap w), w\<lparr>heap := heap w @ [a]\<rparr>)"

definition store_array :: "ref \<Rightarrow> ndarray \<Rightarrow> 'trk world \<Rightarrow> 'trk world" where
  "store_array p a w = w\<lparr>heap := (heap w)[p := a]\<rparr>"

text \<open>
  The callables of other packages that \<open>inference\<close> uses, as parameters. Each of them
  may raise:
  \<^item> \<open>stride\<close>: \<open>model.stride\<close>;
  \<^item> \<open>forward\<close>: lines 34 to 43, the conversion of the padded frame to the input tensor
    and \<open>model(img)[0]\<close>;
  \<^item> \<open>non_max_suppression\<close>: the post-filter, one list of rows per image of the batch;
  \<^item> \<open>scale_boxes\<close>: the mapping of one box from tensor to frame coordinates, given
    \<open>img.shape[2:]\<close> and \<open>im0.shape\<close>;
  \<^item> \<open>update_tracks\<close>: \<open>deepsort.update_tracks(detections, frame=im0)\<close>; the result is
    the tracker's state after the call, and the tracks it returns or the exception it
    raises;
  \<^item> \<open>colors\<close>: the palette;
  \<^item> \<open>box_label\<close>, \<open>putText\<close>: the two drawing operations; the result is the array
    drawn on as it is after the call, and the exception if the call raised.
\<close>

record ('trk, 'raw) env =
  stride :: int
  forward :: "ndarray \<Rightarrow> py_error + 'raw"
  non_max_suppression :: "'raw \<Rightarrow> rat \<Rightarrow> rat \<Rightarrow> nat \<Rightarrow> py_error + det_row list list"
  scale_boxes ::
    "nat list \<Rightarrow> rat \<times> rat \<times> rat \<times> rat \<Rightarrow> nat list \<Rightarrow> py_error + rat \<times> rat \<times> rat \<times> rat"
  update_tracks :: "'trk \<Rightarrow> detection list \<Rightarrow> ndarray \<Rightarrow> 'trk \<times> (py_error + track list)"
  colors :: "int \<Rightarrow> color"
  box_label :: "ndarray \<Rightarrow> box_label_call \<Rightarrow> ndarray \<times> py_error option"
  putText :: "ndarray \<Rightarrow> rat \<Rightarrow> ndarray \<times> py_error option"

text \<open>
  \<open>det[:, :4] = scale_boxes(img.shape[2:], det[:, :4], im0.shape).round()\<close>, row by row;
  the first exception of \<open>scale_boxes\<close> is the exception of the statement.
\<close>

definition scale_row ::
  "('trk, 'raw) env \<Rightarrow> nat list \<Rightarrow> nat list \<Rightarrow> det_row \<Rightarrow> py_error + det_row" where
  "scale_row e img_hw im0_shape r =
     (case scale_boxes e img_hw (bx1 r, by1 r, bx2 r, by2 r) im0_shape of
        Inl err \<Rightarrow> Inl err
      | Inr (a, b, c, d) \<Rightarrow>
          Inr (r\<lparr>bx1 := torch_round a, by1 := torch_round b,
                 bx2 := torch_round c, by2 := torch_round d\<rparr>))"

fun scale_rows ::
  "('trk, 'raw) env \<Rightarrow> nat list \<Rightarrow> nat list \<Rightarrow> det_row list \<Rightarrow> py_error + det_row list" where
  "scale_rows e img_hw im0_shape [] = Inr []"
| "scale_rows e img_hw im0_shape (r # rs) =
     (case scale_row e img_hw im0_shape r of
        Inl err \<Rightarrow> Inl err
      | Inr r' \<Rightarrow> (case scale_rows e img_hw im0_shape rs of
                     Inl err \<Rightarrow> Inl err
                   | Inr rs' \<Rightarrow> Inr (r' # rs')))"

text \<open>
  Lines 51 to 59: the detections of a frame from the rows \<open>pred[0]\<close>.
\<close>

definition frame_detections ::
  "('trk, 'raw) env \<Rightarrow> names \<Rightarrow> nat list \<Rightarrow> nat list \<Rightarrow> det_row list \<Rightarrow> py_error + detection list" where
  "frame_detections e names img_hw im0_shape det =
     (if length det \<noteq> 0
      then (case scale_rows e img_hw im0_shape det of
              Inl err \<Rightarrow> Inl err
            | Inr rows \<Rightarrow> detections_of names (rev rows))
      else Inr [])"

text \<open>
  The \<open>box_label\<close> calls of the annotation loop, drawn in turn on the array \<open>im0\<close>;
  the loop ends at the first call that raises.
\<close>

fun draw_labels ::
  "('trk, 'raw) env \<Rightarrow> ref \<Rightarrow> box_label_call list \<Rightarrow> 'trk world \<Rightarrow> 'trk world \<times> py_error option" where
  "draw_labels e im0 [] w = (w, None)"
| "draw_labels e im0 (c # cs) w =
     (case box_label e (heap w ! im0) c of
        (a, Some err) \<Rightarrow> (store_array im0 a w, Some err)
      | (a, None) \<Rightarrow> draw_labels e im0 cs (store_array im0 a w))"

text \<open>
  Lines 61 to 88 of \<open>inference\<close>: the tracker is updated with the detections and the
  copy \<open>im0\<close> of the frame, the tracks it returns are annotated on \<open>im0\<close>, the frame
  rate is written on \<open>im0\<close>, and \<open>annotator.result()\<close>, the reference \<open>im0\<close>, is
  returned. \<open>elapsed\<close> is the clock difference \<open>time.time() - start_time\<close> of
  line 85; \<open>1 / elapsed\<close> raises ZeroDivisionError when it is zero.
\<close>

definition track_and_annotate ::
  "('trk, 'raw) env \<Rightarrow> names \<Rightarrow> rat \<Rightarrow> ref \<Rightarrow> detection list \<Rightarrow> 'trk world
     \<Rightarrow> 'trk world \<times> (py_error + ref)" where
  "track_and_annotate e names elapsed im0 detections w =
     (case update_tracks e (deepsort w) detections (heap w ! im0) of
        (trk, Inl err) \<Rightarrow> (w\<lparr>deepsort := trk\<rparr>, Inl err)
      | (trk, Inr tracks) \<Rightarrow>
          (case draw_labels e im0 (annotate_tracks (colors e) names tracks)
                  (w\<lparr>deepsort := trk\<rparr>) of
             (w4, Some err) \<Rightarrow> (w4, Inl err)
           | (w4, None) \<Rightarrow>
               if elapsed = 0 then (w4, Inl ZeroDivisionError)
               else (case putText e (heap w4 ! im0) (1 / elapsed) of
                       (a, Some err) \<Rightarrow> (store_array im0 a w4, Inl err)
                     | (a, None) \<Rightarrow> (store_array im0 a w4, Inr im0))))"

text \<open>
  \<open>inference(image, model, names, deepsort)\<close>; \<open>image_ref\<close> is the reference
  \<open>image\<close>. The result is the state after the call, and the exception raised or the
  reference to the annotated frame. \<open>padded_image\<close> and the copy \<open>im0\<close> of the
  frame are new arrays; the annotator draws on \<open>im0\<close> itself. \<open>pred[0]\<close> of an empty
  list raises IndexError.
\<close>

definition inference ::
  "('trk, 'raw) env \<Rightarrow> ref \<Rightarrow> names \<Rightarrow> rat \<Rightarrow> 'trk world \<Rightarrow> 'trk world \<times> (py_error + ref)" where
  "inference e image_ref names elapsed w =
     (case resize_and_pad (heap w ! image_ref) (stride e) of
        Inl err \<Rightarrow> (w, Inl err)
      | Inr padded \<Rightarrow>
          (case alloc padded w of (padded_image, w1) \<Rightarrow>
             (case forward e (heap w1 ! padded_image) of
                Inl err \<Rightarrow> (w1, Inl err)
              | Inr raw \<Rightarrow>
                  (case non_max_suppression e raw (3 / 10) (45 / 100) 100 of
                     Inl err \<Rightarrow> (w1, Inl err)
                   | Inr pred \<Rightarrow>
                       (case alloc (heap w1 ! image_ref) w1 of (im0, w2) \<Rightarrow>
                          (case pred of
                             [] \<Rightarrow> (w2, Inl IndexError)
                           | det # _ \<Rightarrow>
                               (case frame_detections e names
                                       (take 2 (shape (heap w2 ! padded_image)))
                                       (shape (heap w2 ! im0)) det of
                                  Inl err \<Rightarrow> (w2, Inl err)
                                | Inr detections \<Rightarrow>
                                    track_and_annotate e names elapsed im0 detections
                                      w2)))))))"

section \<open>The video loop\<close>

text \<open>
  One pass of the loop of \<open>run\<close> sees what \<open>cap.read()\<close> returns (\<open>None\<close> when \<open>ret\<close>
  is false), the clock difference of the frame step and the value of \<open>cv2.waitKey(1)\<close>.
  The video is the list of these; after its last element \<open>cap.read()\<close> returns false.
  \<^verbatim>\<open>
  while True:
      ret, frame = cap.read()
      if not ret:
          print("End of video or error reading frame.")
          break
      annotated_frame = inference(frame, model, names, deepsort)
      out.write(annotated_frame)
      cv2.imshow('YOLOv9 with DeepSORT', annotated_frame)
      if cv2.waitKey(1) & 0xFF == ord('q'):
          break
  \<close>
  The result is the final state, and the exception that left the loop or the frames
  written to the output video.
\<close>

record pass =
  grabbed :: "ndarray option"
  clock :: rat
  key :: int

fun run_loop ::
  "('trk, 'raw) env \<Rightarrow> names \<Rightarrow> pass list \<Rightarrow> ndarray list \<Rightarrow> 'trk world
     \<Rightarrow> 'trk world \<times> (py_error + ndarray list)" where
  "run_loop e names [] written w = (w, Inr written)"
| "run_loop e names (p # ps) written w =
     (case grabbed p of
        None \<Rightarrow> (w, Inr written)
      | Some f \<Rightarrow>
          (case alloc f w of (frame, w1) \<Rightarrow>
             (case inference e frame names (clock p) w1 of
                (w2, Inl err) \<Rightarrow> (w2, Inl err)
              | (w2, Inr annotated_frame) \<Rightarrow>
                  let written' = written @ [heap w2 ! annotated_frame]
                  in if (key p) AND 255 = 113 then (w2, Inr written')
                     else run_loop e names ps written' w2)))"

text \<open>
  \<open>run\<close>: nothing is done when the video cannot be opened; otherwise the loop starts
  from the tracker that \<open>DeepSort(max_age=30, n_init=3, ...)\<close> constructs.
\<close>

definition run ::
  "('trk, 'raw) env \<Rightarrow> names \<Rightarrow> 'trk \<Rightarrow> bool \<Rightarrow> pass list
     \<Rightarrow> ('trk world \<times> (py_error + ndarray list)) option" where
  "run e names new_tracker is_opened video =
     (if \<not> is_opened then None
      else Some (run_loop e names video [] \<lparr>heap = [], deepsort = new_tracker\<rparr>))"

section \<open>The detection post-filter\<close>

text \<open>
  Modelled from the spec: the function \<open>non_max_suppression\<close> (imported from
  \<open>utils.general\<close>) is not among the sources; only its call
  \<open>non_max_suppression(pred, conf_thres=0.3, iou_thres=0.45, max_det=100)\<close> is. The
  definitions below follow section 4.3 of the specification: of the candidate boxes with
  confidence at least the threshold, the one with the highest confidence is retained,
  the others whose intersection-over-union with it exceeds the overlap threshold are
  suppressed, and this is repeated until no box remains or the maximum number of
  detections is reached; ties in confidence keep the order of the candidates.
  Coordinates and confidences are exact rationals. \<open>post_filter\<close> is the post-filter
  with the three constants of the call.
\<close>

definition box_area :: "det_row \<Rightarrow> rat" where
  "box_area a = (bx2 a - bx1 a) * (by2 a - by1 a)"

definition iou :: "det_row \<Rightarrow> det_row \<Rightarrow> rat" where
  "iou a b =
     (let iw = max 0 (min (bx2 a) (bx2 b) - max (bx1 a) (bx1 b));
          ih = max 0 (min (by2 a) (by2 b) - max (by1 a) (by1 b));
          inter = iw * ih;
          union = box_area a + box_area b - inter
      in if union = 0 then 0 else inter / union)"

fun greedy_nms :: "rat \<Rightarrow> nat \<Rightarrow> det_row list \<Rightarrow> det_row list" where
  "greedy_nms iou_thres 0 xs = []"
| "greedy_nms iou_thres (Suc n) [] = []"
| "greedy_nms iou_thres (Suc n) (x # xs) =
     x # greedy_nms iou_thres n (filter (\<lambda>y. \<not> iou_thres < iou x y) xs)"

definition nms_spec :: "det_row list \<Rightarrow> rat \<Rightarrow> rat \<Rightarrow> nat \<Rightarrow> det_row list" where
  "nms_spec cands conf_thres iou_thres max_det =
     greedy_nms iou_thres max_det
       (sort_key (\<lambda>c. - conf c) (filter (\<lambda>c. conf_thres \<le> conf c) cands))"

definition post_filter :: "det_row list \<Rightarrow> det_row list" where
  "post_filter cands = nms_spec cands (3 / 10) (45 / 100) 100"

section \<open>The track state store\<close>

text \<open>
  Modelled from the spec: the tracker (class \<open>DeepSort\<close> of
  \<open>deep_sort_realtime\<close>) is not among the sources; \<open>run\<close> only constructs it and
  \<open>inference\<close> only calls \<open>update_tracks\<close>. The definitions below follow sections 3,
  4.5 and 9 of the specification: the store owns the tracks and an identifier counter;
  in one cycle a matched track takes the detection's box, resets time-since-update,
  counts the hit and is promoted from Tentative to Confirmed at the hit threshold; an
  unmatched track ages and becomes Deleted beyond the maximum age of its state; every
  unmatched detection becomes a new Tentative track with hit count 1 and the next value
  of the counter; Deleted tracks are removed at the end of the cycle. The result of the
  association engine is a parameter: the pairs of a track identifier and its detection,
  and the unmatched detections. \<open>cycle_track\<close> is what a cycle does to one track of
  the store. \<open>issued\<close> lists the identifiers handed out over a run of cycles, in
  order.
\<close>

record tracked =
  ident :: nat
  lifecycle :: track_state
  hit_count :: nat
  since_update :: nat
  label :: string
  tbox :: "int list"

record store =
  tracks :: "tracked list"
  next_id :: nat

record lifecycle_config =
  min_hits :: nat
  max_age_tentative :: nat
  max_age_confirmed :: nat

record association =
  matched :: "(nat \<times> detection) list"
  unmatched_detections :: "detection list"

definition update_matched :: "lifecycle_config \<Rightarrow> tracked \<Rightarrow> detection \<Rightarrow> tracked" where
  "update_matched cfg t d =
     (let h = hit_count t + 1
      in t\<lparr>tbox := fst d, since_update := 0, hit_count := h,
           lifecycle := (if lifecycle t = Tentative \<and> min_hits cfg \<le> h then Confirmed
                         else lifecycle t)\<rparr>)"

definition age_unmatched :: "lifecycle_config \<Rightarrow> tracked \<Rightarrow> tracked" where
  "age_unmatched cfg t =
     (let a = since_update t + 1;
          max_age = (if lifecycle t = Tentative then max_age_tentative cfg
                     else max_age_confirmed cfg)
      in t\<lparr>since_update := a,
           lifecycle := (if max_age < a then Deleted else lifecycle t)\<rparr>)"

definition new_track :: "nat \<Rightarrow> detection \<Rightarrow> tracked" where
  "new_track i d =
     \<lparr>ident = i, lifecycle = Tentative, hit_count = 1, since_update = 0,
      label = snd (snd d), tbox = fst d\<rparr>"

definition spawn :: "nat \<Rightarrow> detection list \<Rightarrow> tracked list" where
  "spawn n ds = map (\<lambda>(i, d). new_track i d) (zip [n ..< n + length ds] ds)"

definition cycle_track :: "lifecycle_config \<Rightarrow> association \<Rightarrow> tracked \<Rightarrow> tracked" where
  "cycle_track cfg a t =
     (case map_of (matched a) (ident t) of
        Some d \<Rightarrow> update_matched cfg t d
      | None \<Rightarrow> age_unmatched cfg t)"

definition lifecycle_update :: "lifecycle_config \<Rightarrow> store \<Rightarrow> association \<Rightarrow> store" where
  "lifecycle_update cfg st a =
     (let updated = map (cycle_track cfg a) (tracks st);
          ds = unmatched_detections a;
          spawned = spawn (next_id st) ds
      in \<lparr>tracks = filter (\<lambda>t. lifecycle t \<noteq> Deleted) (updated @ spawned),
          next_id = next_id st + length ds\<rparr>)"

fun track_frames :: "lifecycle_config \<Rightarrow> association list \<Rightarrow> store \<Rightarrow> store" where
  "track_frames cfg [] st = st"
| "track_frames cfg (a # as) st = track_frames cfg as (lifecycle_update cfg st a)"

fun issued :: "lifecycle_config \<Rightarrow> association list \<Rightarrow> store \<Rightarrow> nat list" where
  "issued cfg [] st = []"
| "issued cfg (a # as) st =
     [next_id st ..< next_id (lifecycle_update cfg st a)]
     @ issued cfg as (lifecycle_update cfg st a)"

definition store_ok :: "store \<Rightarrow> bool" where
  "store_ok st = (distinct (map ident (tracks st)) \<and> (\<forall>t \<in> set (tracks st). ident t < next_id st))"

definition empty_store :: store where
  "empty_store = \<lparr>tracks = [], next_id = 0\<rparr>"

text \<open>
  Modelled from the spec: one cycle of the tracker on the detections of a frame, after
  sections 4.4, 4.5 and 7 of the specification. With no track or no detection the
  assignment solver is not invoked: every detection is unmatched and every track goes
  unmatched. Otherwise the association engine, a parameter, gives the matching.
\<close>

definition associate ::
  "(store \<Rightarrow> detection list \<Rightarrow> association) \<Rightarrow> store \<Rightarrow> detection list \<Rightarrow> association" where
  "associate engine st ds =
     (if tracks st = [] \<or> ds = [] then \<lparr>matched = [], unmatched_detections = ds\<rparr>
      else engine st ds)"

definition tracker_cycle ::
  "lifecycle_config \<Rightarrow> (store \<Rightarrow> detection list \<Rightarrow> association) \<Rightarrow> store \<Rightarrow> detection list
     \<Rightarrow> store" where
  "tracker_cycle cfg engine st ds = lifecycle_update cfg st (associate engine st ds)"

section \<open>Auxiliary definitions\<close>

text \<open>The padded size \<open>(n + stride - 1) // stride * stride\<close> of a dimension \<open>n\<close>.\<close>

definition aligned :: "nat \<Rightarrow> int \<Rightarrow> nat" where
  "aligned n s = nat ((int n + s - 1) div s * s)"

text \<open>
  A small instance on which the theorems are exercised: a one-pixel frame, a stride
  of 2, a detector that finds nothing, a tracker whose state counts its updates, and
  drawing operations that leave the array as it is.
\<close>

definition example_frame :: ndarray where
  "example_frame = \<lparr>shape = [1, 1, 3], buf = [1, 2, 3]\<rparr>"

definition example_padded :: ndarray where
  "example_padded = \<lparr>shape = [2, 2, 3], buf = [1, 2, 3, 0, 0, 0, 0, 0, 0, 0, 0, 0]\<rparr>"

definition example_env :: "(nat, unit) env" where
  "example_env =
     \<lparr>stride = 2,
      forward = (\<lambda>a. Inr ()),
      non_max_suppression = (\<lambda>raw conf_thres iou_thres max_det. Inr [[]]),
      scale_boxes = (\<lambda>hw b sh. Inr b),
      update_tracks = (\<lambda>trk ds f. (Suc trk, Inr [])),
      colors = (\<lambda>i. (0, 0, 0)),
      box_label = (\<lambda>a c. (a, None)),
      putText = (\<lambda>a q. (a, None))\<rparr>"

definition example_world :: "nat world" where
  "example_world = \<lparr>heap = [example_frame], deepsort = 0\<rparr>"

text \<open>An array with no dimension, and two passes of the video loop.\<close>

definition example_scalar :: ndarray where
  "example_scalar = \<lparr>shape = [], buf = [7]\<rparr>"

definition example_pass :: "ndarray option \<Rightarrow> pass" where
  "example_pass g = \<lparr>grabbed = g, clock = 1, key = - 1\<rparr>"

text \<open>The same instance with a detector that raises.\<close>

definition example_failing_env :: "(nat, unit) env" where
  "example_failing_env =
     example_env\<lparr>forward := (\<lambda>a. Inl (ExternalError ''backend unavailable''))\<rparr>"



text \<open>
  The same instance with a post-filter that returns one row, and a tracker whose state
  is the number of detections it was last handed.
\<close>

definition example_row :: det_row where
  "example_row = \<lparr>bx1 = 16 / 5, by1 = 4, bx2 = 10, by2 = 41 / 2, conf = 9 / 10, cls = 0\<rparr>"

definition example_detect_env :: "(nat, unit) env" where
  "example_detect_env =
     example_env
       \<lparr>non_max_suppression := (\<lambda>raw conf_thres iou_thres max_det. Inr [[example_row]]),
        update_tracks := (\<lambda>trk ds f. (length ds, Inr []))\<rparr>"

text \<open>Candidates for the post-filter, a lifecycle configuration and two cycles.\<close>

definition example_candidates :: "det_row list" where
  "example_candidates =
     [\<lparr>bx1 = 1, by1 = 1, bx2 = 11, by2 = 11, conf = 8 / 10, cls = 0\<rparr>,
      \<lparr>bx1 = 0, by1 = 0, bx2 = 10, by2 = 10, conf = 9 / 10, cls = 0\<rparr>,
      \<lparr>bx1 = 40, by1 = 40, bx2 = 50, by2 = 50, conf = 2 / 10, cls = 0\<rparr>,
      \<lparr>bx1 = 20, by1 = 20, bx2 = 30, by2 = 30, conf = 5 / 10, cls = 1\<rparr>]"

definition example_config :: lifecycle_config where
  "example_config = \<lparr>min_hits = 3, max_age_tentative = 3, max_age_confirmed = 30\<rparr>"

definition example_associations :: "association list" where
  "example_associations =
     [\<lparr>matched = [],
       unmatched_detections = [([0, 0, 10, 10], 9 / 10, ''person''),
                               ([20, 20, 10, 10], 5 / 10, ''car'')]\<rparr>,
      \<lparr>matched = [(0, ([1, 1, 10, 10], 9 / 10, ''person''))],
       unmatched_detections = [([40, 40, 10, 10], 6 / 10, ''person'')]\<rparr>]"

definition example_store :: store where
  "example_store =
     \<lparr>tracks = [\<lparr>ident = 0, lifecycle = Tentative, hit_count = 1, since_update = 0,
                 label = ''person'', tbox = [0, 0, 10, 10]\<rparr>],
      next_id = 1\<rparr>"

text \<open>
  The first instance with the tracker of the specification, whose association engine
  matches nothing, started from a store with one track.
\<close>

definition example_tracker_env :: "(store, unit) env" where
  "example_tracker_env =
     \<lparr>stride = 2,
      forward = (\<lambda>a. Inr ()),
      non_max_suppression = (\<lambda>raw conf_thres iou_thres max_det. Inr [[]]),
      scale_boxes = (\<lambda>hw b sh. Inr b),
      update_tracks =
        (\<lambda>trk ds f.
           (tracker_cycle example_config
              (\<lambda>st ds. \<lparr>matched = [], unmatched_detections = ds\<rparr>) trk ds, Inr [])),
      colors = (\<lambda>i. (0, 0, 0)),
      box_label = (\<lambda>a c. (a, None)),
      putText = (\<lambda>a q. (a, None))\<rparr>"

definition example_tracker_world :: "store world" where
  "example_tracker_world = \<lparr>heap = [example_frame], deepsort = example_store\<rparr>"

section \<open>Facts about the buffer layout\<close>

lemma length_concat_uniform:
  "(\<And>x. x \<in> set xs \<Longrightarrow> length (f x) = m) \<Longrightarrow> length (concat (map f xs)) = length xs * m"
  by (induction xs) auto

lemma nth_concat_uniform:
  assumes "\<And>i. i < n \<Longrightarrow> length (f i) = m" and "i < n" and "j < m"
  shows "concat (map f [0..<n]) ! (i * m + j) = f i ! j"
  using assms
proof (induction n arbitrary: i)
  case 0
  then show ?case by simp
next
  case (Suc n)
  have "length (concat (map f [0..<n])) = length [0..<n] * m"
    by (rule length_concat_uniform) (use Suc.prems(1) in auto)
  then have len: "length (concat (map f [0..<n])) = n * m"
    by simp
  show ?case
  proof (cases "i < n")
    case True
    have "i * m + j < i * m + m" using Suc.prems(3) by simp
    also have "\<dots> = Suc i * m" by simp
    also have "\<dots> \<le> n * m" using True by (intro mult_le_mono1) simp
    finally have "i * m + j < n * m" .
    moreover have "concat (map f [0..<n]) ! (i * m + j) = f i ! j"
      using Suc.IH [of i] Suc.prems True by simp
    ultimately show ?thesis
      by (simp add: nth_append len)
  next
    case False
    with Suc.prems have "i = n" by simp
    then show ?thesis
      using Suc.prems by (simp add: nth_append len)
  qed
qed

lemma length_tabulate3: "length (tabulate3 H W C f) = H * W * C"
  by (simp add: tabulate3_def length_concat_uniform)

lemma nth_tabulate3:
  assumes "i < H" and "j < W" and "k < C"
  shows "tabulate3 H W C f ! ((i * W + j) * C + k) = f i j k"
proof -
  let ?row = "\<lambda>i. concat (map (\<lambda>j. map (f i j) [0..<C]) [0..<W])"
  have lrow: "length (?row i') = W * C" for i'
    by (simp add: length_concat_uniform)
  have idx: "(i * W + j) * C + k = i * (W * C) + (j * C + k)"
    by (simp add: algebra_simps)
  have inner: "j * C + k < W * C"
  proof -
    have "j * C + k < j * C + C" using assms(3) by simp
    also have "\<dots> = Suc j * C" by simp
    also have "\<dots> \<le> W * C" using assms(2) by (intro mult_le_mono1) simp
    finally show ?thesis .
  qed
  have "tabulate3 H W C f ! (i * (W * C) + (j * C + k)) = ?row i ! (j * C + k)"
    unfolding tabulate3_def by (rule nth_concat_uniform) (use lrow assms(1) inner in auto)
  then have "tabulate3 H W C f ! ((i * W + j) * C + k) = ?row i ! (j * C + k)"
    by (simp only: idx)
  also have "\<dots> = map (f i j) [0..<C] ! k"
    using nth_concat_uniform [of W "\<lambda>j. map (f i j) [0..<C]" C j k] assms by simp
  also have "\<dots> = f i j k" using assms(3) by simp
  finally show ?thesis .
qed

section \<open>Facts about the preprocessor\<close>

lemma ceil_mult_ge:
  fixes s n :: int
  assumes "0 < s"
  shows "n \<le> (n + s - 1) div s * s" and "(n + s - 1) div s * s < n + s"
proof -
  let ?a = "n + s - 1"
  have eq: "?a div s * s = ?a - ?a mod s"
    by (simp add: minus_mod_eq_div_mult)
  have "0 \<le> ?a mod s" and "?a mod s < s"
    using assms by simp_all
  then show "n \<le> ?a div s * s" and "?a div s * s < n + s"
    unfolding eq by linarith+
qed

lemma ceil_mult_least:
  fixes s n m :: int
  assumes "0 < s" and "s dvd m" and "n \<le> m"
  shows "(n + s - 1) div s * s \<le> m"
proof -
  obtain k where m: "m = k * s" using assms(2) by (auto simp: dvd_def mult.commute)
  have "(n + s - 1) div s \<le> (k * s + (s - 1)) div s"
    using assms m by (intro zdiv_mono1) simp_all
  also have "\<dots> = k"
    using assms(1) by simp
  finally show ?thesis
    using assms(1) m by (simp add: mult_right_mono)
qed

lemma aligned_props:
  assumes "0 < s"
  shows "s dvd int (aligned n s)" and "n \<le> aligned n s"
    and "s dvd int m \<Longrightarrow> n \<le> m \<Longrightarrow> aligned n s \<le> m"
proof -
  let ?q = "(int n + s - 1) div s * s"
  have ge: "int n \<le> ?q" using ceil_mult_ge(1) [OF assms] .
  then have q: "int (aligned n s) = ?q" by (simp add: aligned_def)
  show "s dvd int (aligned n s)" unfolding q by simp
  show "n \<le> aligned n s" using ge q by linarith
  show "aligned n s \<le> m" if "s dvd int m" and "n \<le> m"
  proof -
    have "?q \<le> int m" using ceil_mult_least [OF assms that(1)] that(2) by simp
    then show ?thesis using q by linarith
  qed
qed

lemma aligned_fix:
  assumes "0 < s" and "s dvd int n"
  shows "aligned n s = n"
  using aligned_props(2) [OF assms(1), of n] aligned_props(3) [OF assms(1) assms(2), of n]
  by simp

lemma tabulate3_cong:
  assumes "\<And>i j k. i < H \<Longrightarrow> j < W \<Longrightarrow> k < C \<Longrightarrow> f i j k = g i j k"
  shows "tabulate3 H W C f = tabulate3 H W C g"
  unfolding tabulate3_def
  by (intro arg_cong [where f = concat] map_cong refl) (simp_all add: assms)

lemma tabulate3_nth:
  assumes "length xs = H * W * C"
  shows "tabulate3 H W C (\<lambda>i j k. xs ! ((i * W + j) * C + k)) = xs"
proof (rule nth_equalityI)
  show "length (tabulate3 H W C (\<lambda>i j k. xs ! ((i * W + j) * C + k))) = length xs"
    by (simp add: length_tabulate3 assms)
next
  fix n
  assume "n < length (tabulate3 H W C (\<lambda>i j k. xs ! ((i * W + j) * C + k)))"
  then have n: "n < H * W * C" by (simp add: length_tabulate3)
  then have C: "0 < C" and W: "0 < W" by (cases C; cases W; simp)+
  define k where "k = n mod C"
  define j where "j = (n div C) mod W"
  define i where "i = n div C div W"
  have "k < C" and "j < W" using C W by (simp_all add: k_def j_def)
  have "n div C < H * W"
    using n C by (simp add: less_mult_imp_div_less)
  then have "i < H"
    using W by (simp add: i_def less_mult_imp_div_less)
  have "n = (i * W + j) * C + k"
    by (simp add: i_def j_def k_def)
  with nth_tabulate3 [OF \<open>i < H\<close> \<open>j < W\<close> \<open>k < C\<close>, of "\<lambda>i j k. xs ! ((i * W + j) * C + k)"]
  show "tabulate3 H W C (\<lambda>i j k. xs ! ((i * W + j) * C + k)) ! n = xs ! n"
    by simp
qed

lemma broadcast3_same: "broadcast3 [h, w, 3] (h, w, 3) = Some (h, w, 3)"
  by (simp add: broadcast3_def)

lemma bcast_at_same:
  "i < h \<Longrightarrow> j < w \<Longrightarrow> bcast_at xs (h, w, 3) i j k = xs ! ((i * w + j) * 3 + k)"
  by (auto simp: bcast_at_def)

lemma resize_and_pad_3ch:
  assumes "shape im = [h, w, 3]" and "0 < s"
  shows "resize_and_pad im s =
           Inr \<lparr>shape = [aligned h s, aligned w s, 3],
                buf = tabulate3 (aligned h s) (aligned w s) 3
                        (\<lambda>i j k. if i < h \<and> j < w then at3 im i j k else 0)\<rparr>"
proof -
  have nonneg: "\<not> (int h + s - 1) div s * s < 0" "\<not> (int w + s - 1) div s * s < 0"
    using ceil_mult_ge(1) [OF assms(2), of "int h"] ceil_mult_ge(1) [OF assms(2), of "int w"]
    by linarith+
  have mins: "min h (aligned h s) = h" "min w (aligned w s) = w"
    using aligned_props(2) [OF assms(2)] by (simp_all add: min_def)
  have f: "(\<lambda>i j k. if i < h \<and> j < w then bcast_at (buf im) (h, w, 3) i j k else 0)
         = (\<lambda>i j k. if i < h \<and> j < w then at3 im i j k else 0)"
    by (intro ext) (simp add: bcast_at_same at3_def assms(1))
  show ?thesis
    using assms(2) nonneg mins
    by (simp add: resize_and_pad_def assms(1) Let_def broadcast3_same f
        aligned_def [symmetric])
qed

lemma resize_and_pad_short:
  "length (shape im) < 2 \<Longrightarrow> resize_and_pad im s = Inl ValueError"
  by (cases "shape im" rule: list.exhaust; simp add: resize_and_pad_def split: list.splits)

section \<open>Properties of the preprocessor\<close>

lemma example_padded_eq: "resize_and_pad example_frame 2 = Inr example_padded"
  by code_simp

text \<open>
  Claim C1. For a frame of shape \<open>(h, w, 3)\<close> with \<open>h \<ge> 1\<close> and \<open>w \<ge> 1\<close> and a
  positive stride \<open>s\<close>, \<open>resize_and_pad\<close> returns an array of shape \<open>(H, W, 3)\<close>
  where \<open>H\<close> is the least multiple of \<open>s\<close> that is at least \<open>h\<close> and \<open>W\<close> the least
  multiple of \<open>s\<close> that is at least \<open>w\<close>; its element \<open>[i, j, k]\<close> is the frame's
  when \<open>i < h\<close> and \<open>j < w\<close>, and zero otherwise.
\<close>

theorem resize_and_pad_pads:
  assumes "shape im = [h, w, 3]" and "1 \<le> h" and "1 \<le> w" and "0 < s"
  shows "\<exists>out H W. resize_and_pad im s = Inr out \<and> shape out = [H, W, 3] \<and> wf_ndarray out
           \<and> s dvd int H \<and> h \<le> H \<and> (\<forall>m. s dvd int m \<and> h \<le> m \<longrightarrow> H \<le> m)
           \<and> s dvd int W \<and> w \<le> W \<and> (\<forall>m. s dvd int m \<and> w \<le> m \<longrightarrow> W \<le> m)
           \<and> (\<forall>i<H. \<forall>j<W. \<forall>k<3.
                 at3 out i j k = (if i < h \<and> j < w then at3 im i j k else 0))"
proof -
  let ?H = "aligned h s" and ?W = "aligned w s"
  let ?f = "\<lambda>i j k. if i < h \<and> j < w then at3 im i j k else 0"
  let ?out = "\<lparr>shape = [?H, ?W, 3], buf = tabulate3 ?H ?W 3 ?f\<rparr>"
  have r: "resize_and_pad im s = Inr ?out"
    using assms(1,4) by (rule resize_and_pad_3ch)
  have wf: "wf_ndarray ?out"
    by (simp add: wf_ndarray_def length_tabulate3)
  have px: "at3 ?out i j k = ?f i j k" if "i < ?H" "j < ?W" "k < 3" for i j k
    using nth_tabulate3 [OF that, of ?f] by (simp add: at3_def)
  have H: "s dvd int ?H" "h \<le> ?H" "\<forall>m. s dvd int m \<and> h \<le> m \<longrightarrow> ?H \<le> m"
    by (simp_all add: aligned_props [OF assms(4)])
  have W: "s dvd int ?W" "w \<le> ?W" "\<forall>m. s dvd int m \<and> w \<le> m \<longrightarrow> ?W \<le> m"
    by (simp_all add: aligned_props [OF assms(4)])
  show ?thesis
    apply (rule exI [of _ ?out], rule exI [of _ ?H], rule exI [of _ ?W])
    using r wf H W px by simp
qed

theorem resize_and_pad_pads_witness:
  "\<exists>out H W. resize_and_pad example_frame 2 = Inr out \<and> shape out = [H, W, 3] \<and> wf_ndarray out
           \<and> 2 dvd int H \<and> 1 \<le> H \<and> (\<forall>m. 2 dvd int m \<and> 1 \<le> m \<longrightarrow> H \<le> m)
           \<and> 2 dvd int W \<and> 1 \<le> W \<and> (\<forall>m. 2 dvd int m \<and> 1 \<le> m \<longrightarrow> W \<le> m)
           \<and> (\<forall>i<H. \<forall>j<W. \<forall>k<3.
                 at3 out i j k = (if i < 1 \<and> j < 1 then at3 example_frame i j k else 0))"
  by (rule resize_and_pad_pads) (simp_all add: example_frame_def)

text \<open>
  Claim C9. \<open>resize_and_pad\<close> is idempotent on frames of shape \<open>(h, w, 3)\<close> for a
  positive stride: applied to its own result it returns that result again. A frame
  whose height and width are multiples of the stride comes back unchanged, shape and
  elements.
\<close>

theorem resize_and_pad_idempotent:
  assumes "shape im = [h, w, 3]" and "0 < s"
  shows "\<exists>out. resize_and_pad im s = Inr out \<and> resize_and_pad out s = Inr out
           \<and> (wf_ndarray im \<and> s dvd int h \<and> s dvd int w \<longrightarrow> out = im)"
proof -
  let ?H = "aligned h s" and ?W = "aligned w s"
  let ?f = "\<lambda>i j k. if i < h \<and> j < w then at3 im i j k else 0"
  let ?out = "\<lparr>shape = [?H, ?W, 3], buf = tabulate3 ?H ?W 3 ?f\<rparr>"
  have r: "resize_and_pad im s = Inr ?out"
    using assms by (rule resize_and_pad_3ch)
  have fixH: "aligned ?H s = ?H" and fixW: "aligned ?W s = ?W"
    using aligned_props(1) [OF assms(2)] by (simp_all add: aligned_fix [OF assms(2)])
  have again: "tabulate3 ?H ?W 3 (\<lambda>i j k. if i < ?H \<and> j < ?W then at3 ?out i j k else 0)
                 = buf ?out"
  proof -
    have "tabulate3 ?H ?W 3 (\<lambda>i j k. if i < ?H \<and> j < ?W then at3 ?out i j k else 0)
            = tabulate3 ?H ?W 3 (\<lambda>i j k. buf ?out ! ((i * ?W + j) * 3 + k))"
      by (rule tabulate3_cong) (simp add: at3_def)
    also have "\<dots> = buf ?out"
      by (rule tabulate3_nth) (simp add: length_tabulate3)
    finally show ?thesis .
  qed
  have r2: "resize_and_pad ?out s = Inr ?out"
    using resize_and_pad_3ch [of ?out ?H ?W s] assms(2) again
    by (simp add: fixH fixW)
  have same: "?out = im" if "wf_ndarray im" "s dvd int h" "s dvd int w"
  proof -
    have hw: "?H = h" "?W = w"
      using that by (simp_all add: aligned_fix [OF assms(2)])
    have len: "length (buf im) = h * w * 3"
      using that(1) by (simp add: wf_ndarray_def assms(1))
    have "tabulate3 h w 3 ?f = tabulate3 h w 3 (\<lambda>i j k. buf im ! ((i * w + j) * 3 + k))"
      by (rule tabulate3_cong) (simp add: at3_def assms(1))
    also have "\<dots> = buf im"
      using len by (rule tabulate3_nth)
    finally show ?thesis
      using assms(1) by (simp add: hw)
  qed
  show ?thesis
    using r r2 same by (intro exI [of _ ?out]) blast
qed

theorem resize_and_pad_idempotent_witness:
  "\<exists>out. resize_and_pad example_padded 2 = Inr out \<and> resize_and_pad out 2 = Inr out
           \<and> (wf_ndarray example_padded \<and> 2 dvd int 2 \<and> 2 dvd int 2 \<longrightarrow> out = example_padded)"
  by (rule resize_and_pad_idempotent) (simp_all add: example_padded_def)

section \<open>Properties of the frame step\<close>

lemma heap_store_array [simp]: "heap (store_array p a w) = (heap w)[p := a]"
  and deepsort_store_array [simp]: "deepsort (store_array p a w) = deepsort w"
  by (simp_all add: store_array_def)

lemma draw_labels_frame:
  "draw_labels e p cs w = (w', r) \<Longrightarrow>
     length (heap w') = length (heap w) \<and> deepsort w' = deepsort w
     \<and> (\<forall>q. q \<noteq> p \<longrightarrow> heap w' ! q = heap w ! q)"
proof (induction cs arbitrary: w)
  case Nil
  then show ?case by simp
next
  case (Cons c cs)
  obtain a x where b: "box_label e (heap w ! p) c = (a, x)"
    by (cases "box_label e (heap w ! p) c")
  show ?case
  proof (cases x)
    case None
    with b Cons.prems have "draw_labels e p cs (store_array p a w) = (w', r)"
      by simp
    from Cons.IH [OF this] show ?thesis
      by simp
  next
    case (Some err)
    with b Cons.prems show ?thesis
      by auto
  qed
qed


lemma draw_labels_no_raise:
  "(\<forall>a c. snd (box_label e a c) = None) \<Longrightarrow> snd (draw_labels e p cs w) = None"
proof (induction cs arbitrary: w)
  case Nil
  then show ?case by simp
next
  case (Cons c cs)
  obtain a x where b: "box_label e (heap w ! p) c = (a, x)"
    by (cases "box_label e (heap w ! p) c")
  with Cons.prems have "x = None"
    by (metis snd_conv)
  with b Cons show ?case
    by simp
qed


lemma track_and_annotate_frame:
  "length (heap (fst (track_and_annotate e names el p ds w))) = length (heap w)"
  "q \<noteq> p \<Longrightarrow> heap (fst (track_and_annotate e names el p ds w)) ! q = heap w ! q"
  by (auto simp: track_and_annotate_def split: prod.splits sum.splits option.splits
      dest!: draw_labels_frame)

lemma track_and_annotate_deepsort:
  "deepsort (fst (track_and_annotate e names el p ds w))
     = fst (update_tracks e (deepsort w) ds (heap w ! p))"
  by (auto simp: track_and_annotate_def split: prod.splits sum.splits option.splits
      dest!: draw_labels_frame)


lemma inference_reaches_tracker:
  assumes "image_ref < length (heap w)"
    and "resize_and_pad (heap w ! image_ref) (stride e) = Inr padded"
    and "forward e padded = Inr raw"
    and "non_max_suppression e raw (3 / 10) (45 / 100) 100 = Inr (det # rest)"
    and "frame_detections e names (take 2 (shape padded)) (shape (heap w ! image_ref)) det
           = Inr ds"
  shows "inference e image_ref names el w
           = track_and_annotate e names el (Suc (length (heap w))) ds
               (w\<lparr>heap := heap w @ [padded, heap w ! image_ref]\<rparr>)"
  using assms by (simp add: inference_def alloc_def nth_append)






lemma detections_of_nth:
  "detections_of names rs = Inr ds \<Longrightarrow>
     length ds = length rs \<and> (\<forall>i<length rs. to_detection names (rs ! i) = Inr (ds ! i))"
proof (induction rs arbitrary: ds)
  case Nil
  then show ?case by simp
next
  case (Cons r rs)
  then show ?case
    by (auto split: sum.splits simp: nth_Cons split: nat.splits)
qed

lemma detections_of_keys:
  "\<forall>r\<in>set rs. py_int (cls r) \<in> dom (map_of names) \<Longrightarrow> \<exists>ds. detections_of names rs = Inr ds"
proof (induction rs)
  case Nil
  then show ?case by simp
next
  case (Cons r rs)
  then obtain ds where "detections_of names rs = Inr ds"
    by auto
  moreover from Cons.prems obtain n where "map_of names (py_int (cls r)) = Some n"
    by auto
  ultimately show ?case
    by (simp add: to_detection_def Let_def)
qed

lemma py_int_of_int: "py_int (of_int x) = x"
  by (simp add: py_int_def)

lemma torch_round_int: "\<exists>z. torch_round q = of_int z"
proof -
  have "torch_round q = of_int \<lfloor>q\<rfloor> \<or> torch_round q = of_int (\<lfloor>q\<rfloor> + 1)"
    unfolding torch_round_def Let_def by auto
  then show ?thesis
    by blast
qed

lemma scale_row_int:
  assumes "scale_row e hw sh r = Inr r'"
  shows "\<exists>x1 y1 x2 y2. bx1 r' = of_int x1 \<and> by1 r' = of_int y1
           \<and> bx2 r' = of_int x2 \<and> by2 r' = of_int y2"
proof -
  from assms obtain a b c d where
    r': "r' = r\<lparr>bx1 := torch_round a, by1 := torch_round b,
                bx2 := torch_round c, by2 := torch_round d\<rparr>"
    by (auto simp: scale_row_def split: sum.splits)
  obtain x1 y1 x2 y2 where "torch_round a = of_int x1" "torch_round b = of_int y1"
    "torch_round c = of_int x2" "torch_round d = of_int y2"
    using torch_round_int by metis
  with r' show ?thesis
    by simp
qed

lemma scale_rows_int:
  "scale_rows e hw sh det = Inr rows \<Longrightarrow> r' \<in> set rows \<Longrightarrow>
     \<exists>x1 y1 x2 y2. bx1 r' = of_int x1 \<and> by1 r' = of_int y1
           \<and> bx2 r' = of_int x2 \<and> by2 r' = of_int y2"
proof (induction det arbitrary: rows)
  case Nil
  then show ?case by simp
next
  case (Cons r det)
  from Cons.prems(1) obtain r1 rs where r1: "scale_row e hw sh r = Inr r1"
    and rs: "scale_rows e hw sh det = Inr rs" and rows: "rows = r1 # rs"
    by (auto split: sum.splits)
  from Cons.prems(2) rows consider "r' = r1" | "r' \<in> set rs"
    by auto
  then show ?case
  proof cases
    case 1
    with scale_row_int [OF r1] show ?thesis by blast
  next
    case 2
    with rs show ?thesis by (rule Cons.IH)
  qed
qed

text \<open>
  Claim C4. When \<open>inference\<close> reaches the tracker, the list it hands to
  \<open>update_tracks\<close> has one tuple for every row of the post-filtered detections after
  the scaling and rounding of line 54, in reverse order. Every such row has integer
  corners \<open>(x1, y1, x2, y2)\<close>, and its tuple is the box \<open>[x1, y1, x2 - x1, y2 - y1]\<close>,
  the row's confidence and the name that \<open>names\<close> gives for the row's class index.
\<close>

theorem detections_handed_to_tracker:
  assumes "image_ref < length (heap w)"
    and "resize_and_pad (heap w ! image_ref) (stride e) = Inr padded"
    and "forward e padded = Inr raw"
    and "non_max_suppression e raw (3 / 10) (45 / 100) 100 = Inr (det # rest)"
    and "scale_rows e (take 2 (shape padded)) (shape (heap w ! image_ref)) det = Inr rows"
    and "\<forall>r\<in>set rows. py_int (cls r) \<in> dom (map_of names)"
  shows "\<exists>ds. inference e image_ref names elapsed w
               = track_and_annotate e names elapsed (Suc (length (heap w))) ds
                   (w\<lparr>heap := heap w @ [padded, heap w ! image_ref]\<rparr>)
            \<and> deepsort (fst (inference e image_ref names elapsed w))
                = fst (update_tracks e (deepsort w) ds (heap w ! image_ref))
            \<and> length ds = length rows
            \<and> (\<forall>i<length rows. \<exists>x1 y1 x2 y2 cls_name.
                  bx1 (rows ! i) = of_int x1 \<and> by1 (rows ! i) = of_int y1
                \<and> bx2 (rows ! i) = of_int x2 \<and> by2 (rows ! i) = of_int y2
                \<and> map_of names (py_int (cls (rows ! i))) = Some cls_name
                \<and> ds ! (length rows - 1 - i)
                    = ([x1, y1, x2 - x1, y2 - y1], conf (rows ! i), cls_name))"
proof -
  let ?w2 = "w\<lparr>heap := heap w @ [padded, heap w ! image_ref]\<rparr>"
  let ?p = "Suc (length (heap w))"
  from assms(6) have "\<forall>r\<in>set (rev rows). py_int (cls r) \<in> dom (map_of names)"
    by simp
  then obtain ds where ds: "detections_of names (rev rows) = Inr ds"
    using detections_of_keys by blast
  have rows_nil: "det = [] \<Longrightarrow> rows = []"
    using assms(5) by simp
  have fd: "frame_detections e names (take 2 (shape padded)) (shape (heap w ! image_ref)) det
              = Inr ds"
  proof (cases "det = []")
    case True
    with rows_nil ds show ?thesis
      by (simp add: frame_detections_def)
  next
    case False
    with assms(5) ds show ?thesis
      by (simp add: frame_detections_def)
  qed
  have inf: "inference e image_ref names elapsed w = track_and_annotate e names elapsed ?p ds ?w2"
    using assms(1-4) fd by (rule inference_reaches_tracker)
  have trk: "deepsort (fst (inference e image_ref names elapsed w))
               = fst (update_tracks e (deepsort w) ds (heap w ! image_ref))"
    unfolding inf track_and_annotate_deepsort by (simp add: nth_append)
  from detections_of_nth [OF ds] have len: "length ds = length rows"
    and nth: "\<forall>j<length rows. to_detection names (rev rows ! j) = Inr (ds ! j)"
    by simp_all
  have each: "\<exists>x1 y1 x2 y2 cls_name.
                  bx1 (rows ! i) = of_int x1 \<and> by1 (rows ! i) = of_int y1
                \<and> bx2 (rows ! i) = of_int x2 \<and> by2 (rows ! i) = of_int y2
                \<and> map_of names (py_int (cls (rows ! i))) = Some cls_name
                \<and> ds ! (length rows - 1 - i)
                    = ([x1, y1, x2 - x1, y2 - y1], conf (rows ! i), cls_name)"
    if i: "i < length rows" for i
  proof -
    let ?j = "length rows - 1 - i"
    have j: "?j < length rows" using i by simp
    have "rev rows ! ?j = rows ! i"
      using i by (simp add: rev_nth)
    with nth j have td: "to_detection names (rows ! i) = Inr (ds ! ?j)"
      by metis
    have "rows ! i \<in> set rows" using i by simp
    with scale_rows_int [OF assms(5)] obtain x1 y1 x2 y2 where
      c: "bx1 (rows ! i) = of_int x1" "by1 (rows ! i) = of_int y1"
         "bx2 (rows ! i) = of_int x2" "by2 (rows ! i) = of_int y2"
      by blast
    from td obtain cls_name where
      n: "map_of names (py_int (cls (rows ! i))) = Some cls_name"
      and d: "ds ! ?j = ([x1, y1, x2 - x1, y2 - y1], conf (rows ! i), cls_name)"
      by (auto simp: to_detection_def Let_def c py_int_of_int split: option.splits)
    with c show ?thesis by blast
  qed
  show ?thesis
    using inf trk len each by blast
qed

lemma example_scaled_rows:
  "scale_rows example_detect_env (take 2 (shape example_padded))
     (shape (heap example_world ! 0)) [example_row]
   = Inr [\<lparr>bx1 = 3, by1 = 4, bx2 = 10, by2 = 20, conf = 9 / 10, cls = 0\<rparr>]"
  by code_simp

theorem detections_handed_to_tracker_witness:
  "\<exists>ds. inference example_detect_env 0 [(0, ''person'')] 1 example_world
          = track_and_annotate example_detect_env [(0, ''person'')] 1
              (Suc (length (heap example_world))) ds
              (example_world\<lparr>heap := heap example_world @ [example_padded, heap example_world ! 0]\<rparr>)
       \<and> deepsort (fst (inference example_detect_env 0 [(0, ''person'')] 1 example_world))
           = fst (update_tracks example_detect_env (deepsort example_world) ds
                    (heap example_world ! 0))
       \<and> length ds = length [\<lparr>bx1 = 3, by1 = 4, bx2 = 10, by2 = 20, conf = 9 / 10, cls = 0\<rparr>]
       \<and> (\<forall>i<length [\<lparr>bx1 = 3, by1 = 4, bx2 = 10, by2 = 20, conf = 9 / 10, cls = 0\<rparr>].
             \<exists>x1 y1 x2 y2 cls_name.
               bx1 ([\<lparr>bx1 = 3, by1 = 4, bx2 = 10, by2 = 20, conf = 9 / 10, cls = 0\<rparr>] ! i) = of_int x1
             \<and> by1 ([\<lparr>bx1 = 3, by1 = 4, bx2 = 10, by2 = 20, conf = 9 / 10, cls = 0\<rparr>] ! i) = of_int y1
             \<and> bx2 ([\<lparr>bx1 = 3, by1 = 4, bx2 = 10, by2 = 20, conf = 9 / 10, cls = 0\<rparr>] ! i) = of_int x2
             \<and> by2 ([\<lparr>bx1 = 3, by1 = 4, bx2 = 10, by2 = 20, conf = 9 / 10, cls = 0\<rparr>] ! i) = of_int y2
             \<and> map_of [(0, ''person'')]
                 (py_int (cls ([\<lparr>bx1 = 3, by1 = 4, bx2 = 10, by2 = 20, conf = 9 / 10, cls = 0\<rparr>] ! i)))
                 = Some cls_name
             \<and> ds ! (length [\<lparr>bx1 = 3, by1 = 4, bx2 = 10, by2 = 20, conf = 9 / 10, cls = 0\<rparr>] - 1 - i)
                 = ([x1, y1, x2 - x1, y2 - y1],
                    conf ([\<lparr>bx1 = 3, by1 = 4, bx2 = 10, by2 = 20, conf = 9 / 10, cls = 0\<rparr>] ! i),
                    cls_name))"
  by (rule detections_handed_to_tracker
        [where padded = example_padded and raw = "()" and det = "[example_row]" and rest = "[]"])
    (simp_all add: example_world_def example_detect_env_def example_env_def example_padded_eq
       example_scaled_rows [unfolded example_world_def example_detect_env_def example_env_def, simplified]
       py_int_def)

text \<open>
  Claim C10. \<open>inference\<close> does not change the caller's frame: every array that exists
  when \<open>inference\<close> is called, the frame among them, holds the same elements when it
  returns or raises; the drawing goes to arrays allocated by the call.
\<close>

theorem inference_keeps_arrays:
  assumes "q < length (heap w)"
  shows "heap (fst (inference e image_ref names elapsed w)) ! q = heap w ! q"
  using assms
  by (auto simp: inference_def alloc_def nth_append track_and_annotate_frame
      split: sum.splits list.splits)

theorem inference_keeps_arrays_witness:
  "heap (fst (inference example_env 0 [] 1 example_world)) ! 0 = heap example_world ! 0"
  by (rule inference_keeps_arrays) (simp add: example_world_def)

text \<open>
  Claim C6. When the detector raises, \<open>inference\<close> raises the same exception, the
  tracker's state is the one before the call, and \<open>update_tracks\<close> is not used: the
  outcome is the same whatever \<open>update_tracks\<close> is.
\<close>

theorem detector_failure_is_fatal:
  assumes "resize_and_pad (heap w ! image_ref) (stride e) = Inr padded"
    and "forward e padded = Inl err"
  shows "snd (inference e image_ref names elapsed w) = Inl err
         \<and> deepsort (fst (inference e image_ref names elapsed w)) = deepsort w
         \<and> (\<forall>u. inference (e\<lparr>update_tracks := u\<rparr>) image_ref names elapsed w
                  = inference e image_ref names elapsed w)"
  using assms by (simp add: inference_def alloc_def)

theorem detector_failure_is_fatal_witness:
  "snd (inference example_failing_env 0 [] 1 example_world)
     = Inl (ExternalError ''backend unavailable'')
   \<and> deepsort (fst (inference example_failing_env 0 [] 1 example_world))
       = deepsort example_world
   \<and> (\<forall>u. inference (example_failing_env\<lparr>update_tracks := u\<rparr>) 0 [] 1 example_world
            = inference example_failing_env 0 [] 1 example_world)"
  by (rule detector_failure_is_fatal [where padded = example_padded])
    (simp_all add: example_world_def example_failing_env_def example_env_def example_padded_eq)

lemma tracker_cycle_no_detections:
  "tracker_cycle cfg engine st []
     = \<lparr>tracks = filter (\<lambda>t. lifecycle t \<noteq> Deleted) (map (age_unmatched cfg) (tracks st)),
        next_id = next_id st\<rparr>"
proof -
  have "cycle_track cfg \<lparr>matched = [], unmatched_detections = []\<rparr> = age_unmatched cfg"
    by (intro ext) (simp add: cycle_track_def)
  then show ?thesis
    by (simp add: tracker_cycle_def associate_def lifecycle_update_def spawn_def)
qed

lemma track_and_annotate_no_raise:
  assumes "snd (update_tracks e (deepsort w) ds (heap w ! p)) = Inr ts"
    and "\<forall>a c. snd (box_label e a c) = None" and "\<forall>a q. snd (putText e a q) = None"
    and "el \<noteq> 0"
  shows "snd (track_and_annotate e names el p ds w) = Inr p"
proof -
  obtain trk where u: "update_tracks e (deepsort w) ds (heap w ! p) = (trk, Inr ts)"
    using assms(1) by (cases "update_tracks e (deepsort w) ds (heap w ! p)") simp
  obtain w4 x where d: "draw_labels e p (annotate_tracks (colors e) names ts)
                          (w\<lparr>deepsort := trk\<rparr>) = (w4, x)"
    by (cases "draw_labels e p (annotate_tracks (colors e) names ts) (w\<lparr>deepsort := trk\<rparr>)")
  have x: "x = None"
    using draw_labels_no_raise [OF assms(2), of p "annotate_tracks (colors e) names ts"
        "w\<lparr>deepsort := trk\<rparr>"] d by simp
  obtain a y where t: "putText e (heap w4 ! p) (1 / el) = (a, y)"
    by (cases "putText e (heap w4 ! p) (1 / el)")
  have y: "y = None"
    using assms(3) t by (metis snd_conv)
  show ?thesis
    using u d x t y assms(4) by (simp add: track_and_annotate_def)
qed

text \<open>
  Claim C7. When the post-filter returns no row for the frame, \<open>inference\<close> raises
  nothing on that account: it goes on as for any frame, with the empty list of
  detections, so \<open>update_tracks\<close> is called with the empty list and the copy of the
  frame, and the tracker's state after \<open>inference\<close> is the one this call leaves. If
  the tracker, the drawing operations and the frame rate text do not raise,
  \<open>inference\<close> returns the annotated frame. With the tracker of the specification,
  every track of the store goes unmatched in that cycle: each is aged, none is matched,
  no track is created.
\<close>

theorem no_detections_still_updates:
  fixes e :: "(store, 'raw) env"
  assumes "image_ref < length (heap w)"
    and "resize_and_pad (heap w ! image_ref) (stride e) = Inr padded"
    and "forward e padded = Inr raw"
    and "non_max_suppression e raw (3 / 10) (45 / 100) 100 = Inr ([] # rest)"
  shows "inference e image_ref names elapsed w
           = track_and_annotate e names elapsed (Suc (length (heap w))) []
               (w\<lparr>heap := heap w @ [padded, heap w ! image_ref]\<rparr>)
       \<and> deepsort (fst (inference e image_ref names elapsed w))
           = fst (update_tracks e (deepsort w) [] (heap w ! image_ref))
       \<and> (snd (update_tracks e (deepsort w) [] (heap w ! image_ref)) = Inr ts
            \<and> (\<forall>a c. snd (box_label e a c) = None) \<and> (\<forall>a q. snd (putText e a q) = None)
            \<and> elapsed \<noteq> 0
          \<longrightarrow> snd (inference e image_ref names elapsed w) = Inr (Suc (length (heap w))))
       \<and> (fst (update_tracks e (deepsort w) [] (heap w ! image_ref))
            = tracker_cycle cfg engine (deepsort w) []
          \<longrightarrow> tracks (deepsort (fst (inference e image_ref names elapsed w)))
                = filter (\<lambda>t. lifecycle t \<noteq> Deleted)
                    (map (age_unmatched cfg) (tracks (deepsort w)))
              \<and> next_id (deepsort (fst (inference e image_ref names elapsed w)))
                  = next_id (deepsort w))"
proof -
  let ?w2 = "w\<lparr>heap := heap w @ [padded, heap w ! image_ref]\<rparr>"
  let ?p = "Suc (length (heap w))"
  have fd: "frame_detections e names (take 2 (shape padded)) (shape (heap w ! image_ref)) []
              = Inr []"
    by (simp add: frame_detections_def)
  have inf: "inference e image_ref names elapsed w = track_and_annotate e names elapsed ?p [] ?w2"
    using assms fd by (rule inference_reaches_tracker)
  have copy: "heap ?w2 ! ?p = heap w ! image_ref" and ds: "deepsort ?w2 = deepsort w"
    by (simp_all add: nth_append)
  have trk: "deepsort (fst (inference e image_ref names elapsed w))
               = fst (update_tracks e (deepsort w) [] (heap w ! image_ref))"
    unfolding inf track_and_annotate_deepsort copy ds ..
  have ok: "snd (inference e image_ref names elapsed w) = Inr ?p"
    if "snd (update_tracks e (deepsort w) [] (heap w ! image_ref)) = Inr ts
          \<and> (\<forall>a c. snd (box_label e a c) = None) \<and> (\<forall>a q. snd (putText e a q) = None)
          \<and> elapsed \<noteq> 0"
    unfolding inf
    by (rule track_and_annotate_no_raise [where ts = ts]) (use that in \<open>simp_all add: nth_append\<close>)
  have aged: "tracks (deepsort (fst (inference e image_ref names elapsed w)))
                = filter (\<lambda>t. lifecycle t \<noteq> Deleted)
                    (map (age_unmatched cfg) (tracks (deepsort w)))
              \<and> next_id (deepsort (fst (inference e image_ref names elapsed w)))
                  = next_id (deepsort w)"
    if "fst (update_tracks e (deepsort w) [] (heap w ! image_ref))
            = tracker_cycle cfg engine (deepsort w) []"
    unfolding trk that tracker_cycle_no_detections by simp
  show ?thesis
    using inf trk ok aged by blast
qed

lemma example_tracker_hyps:
  "0 < length (heap example_tracker_world)"
  "resize_and_pad (heap example_tracker_world ! 0) (stride example_tracker_env)
     = Inr example_padded"
  "forward example_tracker_env example_padded = Inr ()"
  "non_max_suppression example_tracker_env () (3 / 10) (45 / 100) 100 = Inr ([] # [])"
  by (simp_all add: example_tracker_world_def example_tracker_env_def example_padded_eq)

theorem no_detections_still_updates_witness:
  "inference example_tracker_env 0 [] 1 example_tracker_world
     = track_and_annotate example_tracker_env [] 1 (Suc (length (heap example_tracker_world))) []
         (example_tracker_world
            \<lparr>heap := heap example_tracker_world
                      @ [example_padded, heap example_tracker_world ! 0]\<rparr>)
   \<and> deepsort (fst (inference example_tracker_env 0 [] 1 example_tracker_world))
       = fst (update_tracks example_tracker_env (deepsort example_tracker_world) []
                (heap example_tracker_world ! 0))
   \<and> snd (inference example_tracker_env 0 [] 1 example_tracker_world)
       = Inr (Suc (length (heap example_tracker_world)))
   \<and> tracks (deepsort (fst (inference example_tracker_env 0 [] 1 example_tracker_world)))
       = filter (\<lambda>t. lifecycle t \<noteq> Deleted)
           (map (age_unmatched example_config) (tracks (deepsort example_tracker_world)))
   \<and> next_id (deepsort (fst (inference example_tracker_env 0 [] 1 example_tracker_world)))
       = next_id (deepsort example_tracker_world)"
proof -
  note t = no_detections_still_updates [OF example_tracker_hyps,
      where names = "[]" and elapsed = 1 and ts = "[]" and cfg = example_config
        and engine = "\<lambda>st ds. \<lparr>matched = [], unmatched_detections = ds\<rparr>"]
  have a: "snd (update_tracks example_tracker_env (deepsort example_tracker_world) []
                  (heap example_tracker_world ! 0)) = Inr []"
    and b: "\<forall>a c. snd (box_label example_tracker_env a c) = None"
    and c: "\<forall>a q. snd (putText example_tracker_env a q) = None"
    and d: "fst (update_tracks example_tracker_env (deepsort example_tracker_world) []
                  (heap example_tracker_world ! 0))
              = tracker_cycle example_config
                  (\<lambda>st ds. \<lparr>matched = [], unmatched_detections = ds\<rparr>)
                  (deepsort example_tracker_world) []"
    by (simp_all add: example_tracker_env_def)
  have e: "(1::rat) \<noteq> 0" by simp
  from t a b c d e show ?thesis
    by blast
qed

section \<open>Frames without spatial dimensions\<close>

text \<open>
  Claim C3 as stated (a frame with no spatial dimensions fails with InvalidFrame, is
  skipped, and processing continues with the next frame) does not hold. An empty
  frame of shape \<open>(0, 0, 3)\<close> is padded without any error; a frame with no dimension
  raises ValueError, which ends the loop although a good frame follows; a failed read
  ends the loop as well.
\<close>

theorem invalid_frame_counterexample:
  "resize_and_pad \<lparr>shape = [0, 0, 3], buf = []\<rparr> 32 = Inr \<lparr>shape = [0, 0, 3], buf = []\<rparr>
   \<and> snd (run_loop example_env []
            [example_pass (Some example_scalar), example_pass (Some example_frame)]
            [] \<lparr>heap = [], deepsort = 0\<rparr>) = Inl ValueError
   \<and> run_loop example_env []
        [example_pass None, example_pass (Some example_frame)]
        [] \<lparr>heap = [], deepsort = 0\<rparr> = (\<lparr>heap = [], deepsort = 0\<rparr>, Inr [])
   \<and> snd (run_loop example_env [] [example_pass (Some example_frame)]
            [] \<lparr>heap = [], deepsort = 0\<rparr>) = Inr [example_frame]"
  by code_simp

text \<open>
  Claim C3, amended. There is no InvalidFrame error. An array with fewer than two
  dimensions makes \<open>resize_and_pad\<close> raise ValueError; \<open>inference\<close> then raises it
  with the store and the tracker untouched, and the loop of \<open>run\<close> ends with it, the
  tracker unchanged. A failed read ends the loop. For every frame of shape
  \<open>(h, w, 3)\<close>, empty ones included, and every positive stride, the preprocessor
  succeeds.
\<close>

theorem preprocessor_errors:
  "(length (shape im) < 2 \<longrightarrow> resize_and_pad im s = Inl ValueError)
   \<and> (length (shape (heap w ! r)) < 2 \<longrightarrow> inference e r names el w = (w, Inl ValueError))
   \<and> (grabbed p = Some f \<and> length (shape f) < 2 \<longrightarrow>
        (\<exists>w'. run_loop e names (p # ps) written w = (w', Inl ValueError)
              \<and> deepsort w' = deepsort w))
   \<and> (grabbed p' = None \<longrightarrow> run_loop e names (p' # ps) written w = (w, Inr written))
   \<and> (shape im' = [h, w0, 3] \<and> 0 < s' \<longrightarrow> (\<exists>out. resize_and_pad im' s' = Inr out))"
proof (intro conjI impI)
  show "resize_and_pad im s = Inl ValueError" if "length (shape im) < 2"
    using that by (rule resize_and_pad_short)
  show "inference e r names el w = (w, Inl ValueError)" if "length (shape (heap w ! r)) < 2"
    using that by (simp add: inference_def resize_and_pad_short)
  show "\<exists>w'. run_loop e names (p # ps) written w = (w', Inl ValueError) \<and> deepsort w' = deepsort w"
    if "grabbed p = Some f \<and> length (shape f) < 2"
    using that by (simp add: alloc_def inference_def resize_and_pad_short)
  show "run_loop e names (p' # ps) written w = (w, Inr written)" if "grabbed p' = None"
    using that by simp
  show "\<exists>out. resize_and_pad im' s' = Inr out" if "shape im' = [h, w0, 3] \<and> 0 < s'"
    using that by (simp add: resize_and_pad_3ch)
qed

theorem preprocessor_errors_witness:
  "resize_and_pad example_scalar 32 = Inl ValueError
   \<and> inference example_env 0 [] 1 \<lparr>heap = [example_scalar], deepsort = 0\<rparr>
       = (\<lparr>heap = [example_scalar], deepsort = 0\<rparr>, Inl ValueError)
   \<and> (\<exists>w'. run_loop example_env [] (example_pass (Some example_scalar) # []) []
               \<lparr>heap = [example_scalar], deepsort = 0\<rparr> = (w', Inl ValueError)
            \<and> deepsort w' = deepsort \<lparr>heap = [example_scalar], deepsort = 0::nat\<rparr>)
   \<and> run_loop example_env [] (example_pass None # []) []
        \<lparr>heap = [example_scalar], deepsort = 0\<rparr>
       = (\<lparr>heap = [example_scalar], deepsort = 0\<rparr>, Inr [])
   \<and> (\<exists>out. resize_and_pad example_frame 2 = Inr out)"
  using preprocessor_errors [where im = example_scalar and s = 32
      and w = "\<lparr>heap = [example_scalar], deepsort = 0\<rparr>" and r = 0 and e = example_env
      and names = "[]" and el = 1 and p = "example_pass (Some example_scalar)"
      and f = example_scalar and ps = "[]" and written = "[]" and p' = "example_pass None"
      and im' = example_frame and h = 1 and ?w0.0 = 1 and s' = 2]
  by (simp add: example_scalar_def example_pass_def example_frame_def)

section \<open>Properties of the post-filter\<close>

lemma greedy_nms_subset: "set (greedy_nms t n xs) \<subseteq> set xs"
proof (induction t n xs rule: greedy_nms.induct)
  case (3 t n x xs)
  then show ?case by auto
qed simp_all

lemma greedy_nms_length: "length (greedy_nms t n xs) \<le> n"
  by (induction t n xs rule: greedy_nms.induct) simp_all

lemma greedy_nms_sorted:
  "sorted_wrt (\<lambda>a b. conf b \<le> conf a) xs \<Longrightarrow>
   sorted_wrt (\<lambda>a b. conf b \<le> conf a \<and> \<not> t < iou a b) (greedy_nms t n xs)"
proof (induction t n xs rule: greedy_nms.induct)
  case (3 t n x xs)
  let ?ys = "filter (\<lambda>y. \<not> t < iou x y) xs"
  have "sorted_wrt (\<lambda>a b. conf b \<le> conf a) ?ys"
    using "3.prems" by (simp add: sorted_wrt_filter)
  then have rest: "sorted_wrt (\<lambda>a b. conf b \<le> conf a \<and> \<not> t < iou a b) (greedy_nms t n ?ys)"
    by (rule "3.IH")
  have first: "\<forall>y\<in>set (greedy_nms t n ?ys). conf y \<le> conf x \<and> \<not> t < iou x y"
  proof
    fix y
    assume "y \<in> set (greedy_nms t n ?ys)"
    then have "y \<in> set ?ys" using greedy_nms_subset [of t n ?ys] by blast
    then have "y \<in> set xs" and "\<not> t < iou x y" by simp_all
    moreover have "\<forall>y\<in>set xs. conf y \<le> conf x" using "3.prems" by simp
    ultimately show "conf y \<le> conf x \<and> \<not> t < iou x y" by blast
  qed
  have step: "greedy_nms t (Suc n) (x # xs) = x # greedy_nms t n ?ys" by simp
  show ?case
    unfolding step sorted_wrt.simps by (rule conjI [OF first rest])
qed simp_all

lemma greedy_nms_nil: "greedy_nms t m [] = []"
  by (cases m) simp_all

lemma greedy_nms_take: "n \<le> m \<Longrightarrow> greedy_nms t n xs = take n (greedy_nms t m xs)"
proof (induction t n xs arbitrary: m rule: greedy_nms.induct)
  case (1 t xs)
  then show ?case by simp
next
  case (2 t n)
  then show ?case by (simp add: greedy_nms_nil)
next
  case (3 t n x xs)
  let ?ys = "filter (\<lambda>y. \<not> t < iou x y) xs"
  from "3.prems" obtain m' where m: "m = Suc m'" and le: "n \<le> m'"
    by (cases m) simp_all
  have "greedy_nms t n ?ys = take n (greedy_nms t m' ?ys)"
    using le by (rule "3.IH")
  then show ?case
    unfolding m by simp
qed

lemma greedy_nms_complete:
  "sorted_wrt (\<lambda>a b. conf b \<le> conf a) xs \<Longrightarrow> length xs \<le> n \<Longrightarrow> y \<in> set xs \<Longrightarrow>
   y \<notin> set (greedy_nms t n xs) \<Longrightarrow>
   \<exists>k\<in>set (greedy_nms t n xs). conf y \<le> conf k \<and> t < iou k y"
proof (induction t n xs rule: greedy_nms.induct)
  case (1 t xs)
  then show ?case by simp
next
  case (2 t n)
  then show ?case by simp
next
  case (3 t n x xs)
  let ?ys = "filter (\<lambda>y. \<not> t < iou x y) xs"
  have step: "greedy_nms t (Suc n) (x # xs) = x # greedy_nms t n ?ys" by simp
  have "x \<in> set (greedy_nms t (Suc n) (x # xs))" by simp
  with "3.prems"(4) have yx: "y \<noteq> x" by blast
  with "3.prems"(3) have yxs: "y \<in> set xs" by simp
  have "\<forall>z\<in>set xs. conf z \<le> conf x" using "3.prems"(1) by simp
  with yxs have le: "conf y \<le> conf x" by blast
  show ?case
  proof (cases "t < iou x y")
    case True
    have "x \<in> set (x # greedy_nms t n ?ys)" by simp
    with True le show ?thesis unfolding step by blast
  next
    case False
    with yxs have m: "y \<in> set ?ys" by simp
    have s: "sorted_wrt (\<lambda>a b. conf b \<le> conf a) ?ys"
      using "3.prems"(1) by (simp add: sorted_wrt_filter)
    have l: "length ?ys \<le> n"
      by (rule le_trans [OF length_filter_le]) (use "3.prems"(2) in simp)
    have nm: "y \<notin> set (greedy_nms t n ?ys)"
      using "3.prems"(4) unfolding step by simp
    have "\<exists>k\<in>set (greedy_nms t n ?ys). conf y \<le> conf k \<and> t < iou k y"
      using s l m nm by (rule "3.IH")
    then obtain k where "k \<in> set (greedy_nms t n ?ys)" and "conf y \<le> conf k \<and> t < iou k y"
      by blast
    then have "k \<in> set (x # greedy_nms t n ?ys)" by simp
    with \<open>conf y \<le> conf k \<and> t < iou k y\<close> show ?thesis unfolding step by blast
  qed
qed

lemma sorted_by_conf:
  "sorted_wrt (\<lambda>a b. conf b \<le> conf a) (sort_key (\<lambda>c. - conf c) xs)"
proof -
  have "sorted (map (\<lambda>c. - conf c) (sort_key (\<lambda>c. - conf c) xs))"
    by (rule sorted_sort_key)
  then show ?thesis
    by (simp add: sorted_map)
qed

lemma nms_spec_props:
  "set (nms_spec cands ct it md) \<subseteq> {c \<in> set cands. ct \<le> conf c}"
  "length (nms_spec cands ct it md) \<le> md"
  "sorted_wrt (\<lambda>a b. conf b \<le> conf a \<and> \<not> it < iou a b) (nms_spec cands ct it md)"
  "nms_spec cands ct it md = take md (nms_spec cands ct it (max md (length cands)))"
  "c \<in> set cands \<Longrightarrow> ct \<le> conf c \<Longrightarrow> c \<notin> set (nms_spec cands ct it (max md (length cands))) \<Longrightarrow>
     \<exists>k\<in>set (nms_spec cands ct it (max md (length cands))). conf c \<le> conf k \<and> it < iou k c"
proof -
  let ?xs = "sort_key (\<lambda>c. - conf c) (filter (\<lambda>c. ct \<le> conf c) cands)"
  show "set (nms_spec cands ct it md) \<subseteq> {c \<in> set cands. ct \<le> conf c}"
    using greedy_nms_subset [of it md ?xs] by (auto simp: nms_spec_def)
  show "length (nms_spec cands ct it md) \<le> md"
    by (simp add: nms_spec_def greedy_nms_length)
  show "sorted_wrt (\<lambda>a b. conf b \<le> conf a \<and> \<not> it < iou a b) (nms_spec cands ct it md)"
    unfolding nms_spec_def by (rule greedy_nms_sorted) (rule sorted_by_conf)
  show "nms_spec cands ct it md = take md (nms_spec cands ct it (max md (length cands)))"
    unfolding nms_spec_def by (rule greedy_nms_take) simp
  have len: "length ?xs \<le> max md (length cands)"
    by (simp add: le_max_iff_disj)
  show "\<exists>k\<in>set (nms_spec cands ct it (max md (length cands))). conf c \<le> conf k \<and> it < iou k c"
    if "c \<in> set cands" "ct \<le> conf c" "c \<notin> set (nms_spec cands ct it (max md (length cands)))"
    unfolding nms_spec_def
    by (rule greedy_nms_complete [OF sorted_by_conf len])
      (use that in \<open>simp_all add: nms_spec_def\<close>)
qed

text \<open>
  Claim C5. The post-filter is the greedy suppression with confidence threshold 0.3,
  overlap threshold 0.45 and at most 100 detections. For all thresholds and every
  maximum count \<open>md\<close>: only candidates with confidence at least the threshold are kept;
  at most \<open>md\<close> boxes are kept; the kept boxes are in decreasing order of confidence and
  no kept box overlaps an earlier kept box by more than the overlap threshold. The
  result is the first \<open>md\<close> boxes of the suppression run until no box remains, so the
  count alone leaves out only boxes that come after \<open>md\<close> retained ones of at least
  their confidence; and in the run until no box remains, every candidate with
  confidence at least the threshold that is not retained is suppressed by a retained
  box of at least its confidence that it overlaps by more than the overlap threshold.
\<close>

theorem post_filter_spec:
  "post_filter cands = nms_spec cands (3 / 10) (45 / 100) 100
   \<and> set (nms_spec cands ct it md) \<subseteq> {c \<in> set cands. ct \<le> conf c}
   \<and> length (nms_spec cands ct it md) \<le> md
   \<and> sorted_wrt (\<lambda>a b. conf b \<le> conf a \<and> \<not> it < iou a b) (nms_spec cands ct it md)
   \<and> nms_spec cands ct it md = take md (nms_spec cands ct it (max md (length cands)))
   \<and> sorted_wrt (\<lambda>a b. conf b \<le> conf a \<and> \<not> it < iou a b)
        (nms_spec cands ct it (max md (length cands)))
   \<and> (\<forall>c\<in>set cands.
         ct \<le> conf c \<and> c \<notin> set (nms_spec cands ct it (max md (length cands))) \<longrightarrow>
         (\<exists>k\<in>set (nms_spec cands ct it (max md (length cands))).
             conf c \<le> conf k \<and> it < iou k c))"
proof -
  have a: "post_filter cands = nms_spec cands (3 / 10) (45 / 100) 100"
    by (rule post_filter_def)
  have b: "set (nms_spec cands ct it md) \<subseteq> {c \<in> set cands. ct \<le> conf c}"
    by (rule nms_spec_props(1))
  have c: "length (nms_spec cands ct it md) \<le> md"
    by (rule nms_spec_props(2))
  have d: "sorted_wrt (\<lambda>a b. conf b \<le> conf a \<and> \<not> it < iou a b) (nms_spec cands ct it md)"
    by (rule nms_spec_props(3))
  have e: "nms_spec cands ct it md = take md (nms_spec cands ct it (max md (length cands)))"
    by (rule nms_spec_props(4))
  have f: "sorted_wrt (\<lambda>a b. conf b \<le> conf a \<and> \<not> it < iou a b)
             (nms_spec cands ct it (max md (length cands)))"
    by (rule nms_spec_props(3))
  have g: "\<forall>c\<in>set cands.
         ct \<le> conf c \<and> c \<notin> set (nms_spec cands ct it (max md (length cands))) \<longrightarrow>
         (\<exists>k\<in>set (nms_spec cands ct it (max md (length cands))).
             conf c \<le> conf k \<and> it < iou k c)"
    using nms_spec_props(5) [where cands = cands and ct = ct and it = it and md = md]
    by blast
  show ?thesis
    using a b c d e f g by (intro conjI)
qed

lemma example_suppression:
  "nms_spec example_candidates (3 / 10) (45 / 100) (max 1 (length example_candidates)) =
     [\<lparr>bx1 = 0, by1 = 0, bx2 = 10, by2 = 10, conf = 9 / 10, cls = 0\<rparr>,
      \<lparr>bx1 = 20, by1 = 20, bx2 = 30, by2 = 30, conf = 5 / 10, cls = 1\<rparr>]"
  by code_simp

text \<open>
  On the example candidates with a maximum count of 1 the count is reached: of the two
  boxes that the suppression retains only the first is kept, and the candidate of
  confidence 0.8 is suppressed by the retained box of confidence 0.9.
\<close>

theorem post_filter_spec_witness:
  "post_filter example_candidates = nms_spec example_candidates (3 / 10) (45 / 100) 100
   \<and> nms_spec example_candidates (3 / 10) (45 / 100) 1
       = [\<lparr>bx1 = 0, by1 = 0, bx2 = 10, by2 = 10, conf = 9 / 10, cls = 0\<rparr>]
   \<and> length (nms_spec example_candidates (3 / 10) (45 / 100) 1) = 1
   \<and> (\<exists>k\<in>set (nms_spec example_candidates (3 / 10) (45 / 100)
                  (max 1 (length example_candidates))).
         conf \<lparr>bx1 = 1, by1 = 1, bx2 = 11, by2 = 11, conf = 8 / 10, cls = 0\<rparr> \<le> conf k
         \<and> 45 / 100 < iou k \<lparr>bx1 = 1, by1 = 1, bx2 = 11, by2 = 11, conf = 8 / 10, cls = 0\<rparr>)"
proof -
  let ?b = "\<lparr>bx1 = 1, by1 = 1, bx2 = 11, by2 = 11, conf = 8 / 10, cls = 0\<rparr>"
  let ?u = "nms_spec example_candidates (3 / 10) (45 / 100) (max 1 (length example_candidates))"
  note t = post_filter_spec [where cands = example_candidates and ct = "3 / 10"
      and it = "45 / 100" and md = 1]
  have 1: "?b \<in> set example_candidates" by (simp add: example_candidates_def)
  have 2: "3 / 10 \<le> conf ?b" by simp
  have 3: "?b \<notin> set ?u"
    unfolding example_suppression by simp
  from t have cut: "nms_spec example_candidates (3 / 10) (45 / 100) 1 = take 1 ?u"
    by blast
  have one: "nms_spec example_candidates (3 / 10) (45 / 100) 1
               = [\<lparr>bx1 = 0, by1 = 0, bx2 = 10, by2 = 10, conf = 9 / 10, cls = 0\<rparr>]"
    unfolding cut example_suppression by simp
  have len: "length (nms_spec example_candidates (3 / 10) (45 / 100) 1) = 1"
    unfolding one by simp
  from t 1 2 3 have sup: "\<exists>k\<in>set ?u. conf ?b \<le> conf k \<and> 45 / 100 < iou k ?b"
    by blast
  from t have pf: "post_filter example_candidates
                     = nms_spec example_candidates (3 / 10) (45 / 100) 100"
    by blast
  show ?thesis
    using pf one len sup by (intro conjI)
qed

section \<open>Properties of the track state store\<close>

lemma ident_update_matched [simp]: "ident (update_matched cfg t d) = ident t"
  by (simp add: update_matched_def Let_def)

lemma ident_age_unmatched [simp]: "ident (age_unmatched cfg t) = ident t"
  by (simp add: age_unmatched_def Let_def)

lemma ident_cycle_track [simp]: "ident (cycle_track cfg a t) = ident t"
  by (simp add: cycle_track_def split: option.splits)

lemma ident_new_tracks: "map ident (map (\<lambda>(i, d). new_track i d) zs) = map fst zs"
  by (induction zs) (auto simp: new_track_def)

lemma ident_spawn: "map ident (spawn n ds) = [n ..< n + length ds]"
  unfolding spawn_def ident_new_tracks by (rule map_fst_zip) simp

lemma alive_new_tracks:
  "filter (\<lambda>t. lifecycle t \<noteq> Deleted) (map (\<lambda>(i, d). new_track i d) zs)
     = map (\<lambda>(i, d). new_track i d) zs"
  by (induction zs) (auto simp: new_track_def)

lemma alive_spawn: "filter (\<lambda>t. lifecycle t \<noteq> Deleted) (spawn n ds) = spawn n ds"
  unfolding spawn_def by (rule alive_new_tracks)

lemma next_id_lifecycle_update:
  "next_id (lifecycle_update cfg st a) = next_id st + length (unmatched_detections a)"
  by (simp add: lifecycle_update_def Let_def)

lemma tracks_lifecycle_update:
  "tracks (lifecycle_update cfg st a)
     = filter (\<lambda>t. lifecycle t \<noteq> Deleted) (map (cycle_track cfg a) (tracks st))
       @ spawn (next_id st) (unmatched_detections a)"
  by (simp add: lifecycle_update_def Let_def alive_spawn)

lemma idents_lifecycle_update:
  "map ident (tracks (lifecycle_update cfg st a))
     = map ident (filter (\<lambda>t. lifecycle (cycle_track cfg a t) \<noteq> Deleted) (tracks st))
       @ [next_id st ..< next_id (lifecycle_update cfg st a)]"
  by (simp add: tracks_lifecycle_update filter_map comp_def ident_spawn
      next_id_lifecycle_update)

lemma store_ok_lifecycle_update:
  assumes "store_ok st"
  shows "store_ok (lifecycle_update cfg st a)"
proof -
  let ?P = "\<lambda>t. lifecycle (cycle_track cfg a t) \<noteq> Deleted"
  note P = idents_lifecycle_update [of cfg st a]
  have d: "distinct (map ident (filter ?P (tracks st)))"
    using assms by (simp add: store_ok_def distinct_map_filter)
  have lt: "\<forall>i\<in>set (map ident (filter ?P (tracks st))). i < next_id st"
    using assms by (auto simp: store_ok_def)
  have "distinct (map ident (tracks (lifecycle_update cfg st a)))"
    unfolding P using d lt by auto
  moreover have "\<forall>i\<in>set (map ident (tracks (lifecycle_update cfg st a))).
                   i < next_id (lifecycle_update cfg st a)"
    unfolding P using lt by (auto simp: next_id_lifecycle_update)
  ultimately show ?thesis
    by (simp add: store_ok_def)
qed

lemma store_ok_track_frames: "store_ok st \<Longrightarrow> store_ok (track_frames cfg as st)"
  by (induction as arbitrary: st) (simp_all add: store_ok_lifecycle_update)

lemma issued_ge: "i \<in> set (issued cfg as st) \<Longrightarrow> next_id st \<le> i"
proof (induction as arbitrary: st)
  case Nil
  then show ?case by simp
next
  case (Cons a as)
  let ?st = "lifecycle_update cfg st a"
  from Cons.prems consider "i \<in> set [next_id st ..< next_id ?st]" | "i \<in> set (issued cfg as ?st)"
    by auto
  then show ?case
  proof cases
    case 1
    then show ?thesis by simp
  next
    case 2
    then have "next_id ?st \<le> i" by (rule Cons.IH)
    then show ?thesis by (simp add: next_id_lifecycle_update)
  qed
qed

lemma issued_increasing: "sorted_wrt (<) (issued cfg as st)"
proof (induction as arbitrary: st)
  case Nil
  then show ?case by simp
next
  case (Cons a as)
  let ?st = "lifecycle_update cfg st a"
  have "\<forall>x\<in>set [next_id st ..< next_id ?st]. \<forall>y\<in>set (issued cfg as ?st). x < y"
    using issued_ge [of _ cfg as ?st] by fastforce
  then show ?case
    using Cons.IH [of ?st] by (simp add: sorted_wrt_append)
qed

lemma issued_append:
  "issued cfg (as1 @ as2) st = issued cfg as1 st @ issued cfg as2 (track_frames cfg as1 st)"
  by (induction as1 arbitrary: st) simp_all

lemma idents_track_frames:
  "set (map ident (tracks (track_frames cfg as st)))
     \<subseteq> set (map ident (tracks st)) \<union> set (issued cfg as st)"
proof (induction as arbitrary: st)
  case Nil
  then show ?case by simp
next
  case (Cons a as)
  let ?st = "lifecycle_update cfg st a"
  have "set (map ident (tracks ?st))
          \<subseteq> set (map ident (tracks st)) \<union> set [next_id st ..< next_id ?st]"
    unfolding idents_lifecycle_update by auto
  with Cons.IH [of ?st] show ?case
    by auto
qed

text \<open>
  Claim C8. Starting from a store whose tracks have distinct identifiers below the
  counter, after any run of cycles the tracks of the store have distinct identifiers
  below the counter, and each of them is a track of the starting store or was handed
  its identifier during the run. The identifiers handed out over a run are strictly
  increasing, hence pairwise different; those handed out in the later cycles of a run
  are greater than the identifier of every track that was in the store before these
  cycles, whether or not the track has been deleted since, so the identifier of a
  deleted track is never handed out again. One cycle keeps the tracks of the store
  that it does not delete, in their order and each with the identifier it had, and
  adds the new tracks, whose identifiers are the next values of the counter.
\<close>

theorem identifiers_unique:
  assumes "store_ok st"
  shows "store_ok (track_frames cfg as st)
         \<and> sorted_wrt (<) (issued cfg (as @ as') st)
         \<and> issued cfg (as @ as') st
             = issued cfg as st @ issued cfg as' (track_frames cfg as st)
         \<and> (\<forall>i\<in>set (issued cfg as' (track_frames cfg as st)).
               \<forall>t\<in>set (tracks (track_frames cfg as st)). ident t < i)
         \<and> set (map ident (tracks (track_frames cfg as st)))
             \<subseteq> set (map ident (tracks st)) \<union> set (issued cfg as st)
         \<and> tracks (lifecycle_update cfg st a)
             = filter (\<lambda>t. lifecycle t \<noteq> Deleted) (map (cycle_track cfg a) (tracks st))
               @ spawn (next_id st) (unmatched_detections a)
         \<and> (\<forall>t. ident (cycle_track cfg a t) = ident t)
         \<and> map ident (spawn (next_id st) (unmatched_detections a))
             = [next_id st ..< next_id (lifecycle_update cfg st a)]
         \<and> issued cfg (a # as) st
             = map ident (spawn (next_id st) (unmatched_detections a))
               @ issued cfg as (lifecycle_update cfg st a)"
proof -
  let ?st = "track_frames cfg as st"
  have ok: "store_ok ?st"
    using assms by (rule store_ok_track_frames)
  have later: "\<forall>i\<in>set (issued cfg as' ?st). \<forall>t\<in>set (tracks ?st). ident t < i"
  proof (intro ballI)
    fix i t
    assume "i \<in> set (issued cfg as' ?st)" and "t \<in> set (tracks ?st)"
    then have "next_id ?st \<le> i" and "ident t < next_id ?st"
      using ok by (simp_all add: issued_ge store_ok_def)
    then show "ident t < i" by simp
  qed
  have sp: "map ident (spawn (next_id st) (unmatched_detections a))
              = [next_id st ..< next_id (lifecycle_update cfg st a)]"
    by (simp add: ident_spawn next_id_lifecycle_update)
  have iss: "issued cfg (a # as) st
               = map ident (spawn (next_id st) (unmatched_detections a))
                 @ issued cfg as (lifecycle_update cfg st a)"
    unfolding sp by simp
  have same: "\<forall>t. ident (cycle_track cfg a t) = ident t"
    by simp
  show ?thesis
    using ok issued_increasing [of cfg "as @ as'" st] issued_append [of cfg as as' st] later
      idents_track_frames [of cfg as st] tracks_lifecycle_update [of cfg st a] same sp iss
    by (intro conjI)
qed

lemma example_issued_later:
  "issued example_config (tl example_associations)
     (track_frames example_config [hd example_associations] example_store) = [3]"
  by code_simp

lemma example_tracks_later:
  "map ident (tracks (track_frames example_config [hd example_associations] example_store))
     = [0, 1, 2]"
  by code_simp

text \<open>
  On the example the first cycle hands out the identifiers 1 and 2 and the second the
  identifier 3, which is greater than the identifiers 0, 1 and 2 of the tracks in the
  store after the first cycle.
\<close>

theorem identifiers_unique_witness:
  "store_ok (track_frames example_config [hd example_associations] example_store)
   \<and> sorted_wrt (<) (issued example_config ([hd example_associations] @ tl example_associations)
                        example_store)
   \<and> (\<exists>i\<in>set (issued example_config (tl example_associations)
                  (track_frames example_config [hd example_associations] example_store)).
        \<exists>t\<in>set (tracks (track_frames example_config [hd example_associations] example_store)).
          ident t = 2 \<and> i = 3 \<and> ident t < i)
   \<and> tracks (lifecycle_update example_config example_store (hd example_associations))
       = filter (\<lambda>t. lifecycle t \<noteq> Deleted)
           (map (cycle_track example_config (hd example_associations)) (tracks example_store))
         @ spawn (next_id example_store) (unmatched_detections (hd example_associations))
   \<and> map ident (spawn (next_id example_store) (unmatched_detections (hd example_associations)))
       = [next_id example_store ..<
          next_id (lifecycle_update example_config example_store (hd example_associations))]"
proof -
  let ?st = "track_frames example_config [hd example_associations] example_store"
  have ok: "store_ok example_store"
    by (simp add: store_ok_def example_store_def)
  note t = identifiers_unique [OF ok, where cfg = example_config
      and as = "[hd example_associations]" and as' = "tl example_associations"
      and a = "hd example_associations"]
  have i: "3 \<in> set (issued example_config (tl example_associations) ?st)"
    unfolding example_issued_later by simp
  have "2 \<in> set (map ident (tracks ?st))"
    unfolding example_tracks_later by simp
  then obtain x where x: "x \<in> set (tracks ?st)" and x2: "ident x = 2"
    by auto
  from t i x have "ident x < 3"
    by blast
  with i x x2 have later: "\<exists>i\<in>set (issued example_config (tl example_associations) ?st).
        \<exists>t\<in>set (tracks ?st). ident t = 2 \<and> i = 3 \<and> ident t < i"
    by blast
  from t have 1: "store_ok ?st" by blast
  from t have 2: "sorted_wrt (<) (issued example_config
      ([hd example_associations] @ tl example_associations) example_store)" by blast
  from t have 3: "tracks (lifecycle_update example_config example_store (hd example_associations))
       = filter (\<lambda>t. lifecycle t \<noteq> Deleted)
           (map (cycle_track example_config (hd example_associations)) (tracks example_store))
         @ spawn (next_id example_store) (unmatched_detections (hd example_associations))"
    by blast
  from t have 4: "map ident (spawn (next_id example_store)
                      (unmatched_detections (hd example_associations)))
       = [next_id example_store ..<
          next_id (lifecycle_update example_config example_store (hd example_associations))]"
    by blast
  show ?thesis
    using 1 2 later 3 4 by (intro conjI)
qed

end
